theory Spec2Isabelle
  imports Complex_Main "HOL-Library.AList"
begin

section \<open>JSON values and the JavaScript operations applied to them\<close>

text \<open>
  The client (class \<open>NodeHandler\<close> of \<open>qsys-config\<close>) reads decoded frames as plain
  JavaScript values.  A value delivered by \<open>JSON.parse\<close> is one of the following; a number
  is the rational it denotes (\<open>JSON.parse\<close> yields no NaN, and \<open>===\<close> identifies
  \<open>-0\<close> and \<open>0\<close>; literals that overflow to an infinity are outside the model); an
  object holds its own properties in insertion order, each key once (\<open>JSON.parse\<close> keeps
  the last value of a repeated key); a string is the list of its characters.
  \<open>undefined\<close> is \<open>None\<close> of \<open>json option\<close>.
\<close>

datatype json =
    JNull
  | JBool bool
  | JNum rat
  | JStr string
  | JArr "json list"
  | JObj "(string \<times> json) list"

text \<open>
  \<open>class QSysApiError extends Error\<close> of the built client: the constructor stores
  \<open>code\<close> and hands \<open>message\<close> to \<open>Error\<close>; both are whatever the response holds.
\<close>

record QSysApiError =
  code :: "json option"
  message :: "json option"

text \<open>
  The errors that occur: \<open>new Error(text)\<close>, \<open>new Error(value)\<close> with a value that is
  not a text (the Logon handler of the TypeScript source), the \<open>SyntaxError\<close> of
  \<open>JSON.parse\<close>, the \<open>TypeError\<close> of a property read on \<open>undefined\<close> or \<open>null\<close> and of
  \<open>in\<close> on a primitive, and \<open>QSysApiError\<close>.
\<close>

datatype error =
    Error string
  | ErrorOf json
  | SyntaxError
  | TypeError
  | ApiError QSysApiError

text \<open>
  \<open>v.key\<close> for the keys the client reads (\<open>method\<close>, \<open>params\<close>, \<open>State\<close>, \<open>result\<close>,
  \<open>Changes\<close>, \<open>length\<close>, \<open>id\<close>, \<open>error\<close>, \<open>code\<close>, \<open>message\<close>): a \<open>TypeError\<close> on
  \<open>undefined\<close> and \<open>null\<close>, the own property of an object, \<open>length\<close> of a string or an
  array, and \<open>undefined\<close> otherwise.
\<close>

fun get_prop :: "json option \<Rightarrow> string \<Rightarrow> error + json option" where
  "get_prop None key = Inl TypeError"
| "get_prop (Some JNull) key = Inl TypeError"
| "get_prop (Some (JObj kvs)) key = Inr (map_of kvs key)"
| "get_prop (Some (JStr s)) key =
     Inr (if key = ''length'' then Some (JNum (of_nat (length s))) else None)"
| "get_prop (Some (JArr xs)) key =
     Inr (if key = ''length'' then Some (JNum (of_nat (length xs))) else None)"
| "get_prop (Some (JBool b)) key = Inr None"
| "get_prop (Some (JNum n)) key = Inr None"

text \<open>\<open>"method" in obj\<close>: a \<open>TypeError\<close> unless \<open>obj\<close> is an object or an array.\<close>

fun has_method :: "json \<Rightarrow> error + bool" where
  "has_method (JObj kvs) = Inr (map_of kvs ''method'' \<noteq> None)"
| "has_method (JArr xs) = Inr False"
| "has_method v = Inl TypeError"

text \<open>The truthiness of a value, as \<open>if (response.error)\<close> tests it.\<close>

fun truthy :: "json option \<Rightarrow> bool" where
  "truthy None = False"
| "truthy (Some JNull) = False"
| "truthy (Some (JBool b)) = b"
| "truthy (Some (JNum n)) = (n \<noteq> 0)"
| "truthy (Some (JStr s)) = (s \<noteq> [])"
| "truthy (Some (JArr xs)) = True"
| "truthy (Some (JObj kvs)) = True"

text \<open>The decimal text of an index, as \<open>changes[i]\<close> names a property.\<close>

definition digit_char :: "nat \<Rightarrow> char" where
  "digit_char d = char_of (48 + d)"

function decimal :: "nat \<Rightarrow> string" where
  "decimal n = (if n < 10 then [digit_char n] else decimal (n div 10) @ [digit_char (n mod 10)])"
  by pat_completeness auto
termination
  by (relation "measure id") auto

declare decimal.simps [simp del]

text \<open>
  The values \<open>changes[0]\<close>, ..., \<open>changes[changes.length - 1]\<close> that the loop of the
  \<open>ChangeGroup.Poll\<close> case emits, for \<open>changes = data.result.Changes\<close>: reading
  \<open>length\<close> of \<open>undefined\<close> or \<open>null\<close> is a \<open>TypeError\<close>; an array gives its elements, a
  string its characters; a number or a boolean has no \<open>length\<close>, and the comparison
  \<open>i < undefined\<close> is false at once.  An object is read through its own \<open>length\<close>
  property when that is a number or absent; an object whose \<open>length\<close> is of another type
  (which JavaScript would coerce) is not sent by the device and is read here as having
  none.  No case of the loop raises once \<open>changes\<close> is neither \<open>undefined\<close> nor \<open>null\<close>.
\<close>

fun rx_items :: "json option \<Rightarrow> error + json option list" where
  "rx_items None = Inl TypeError"
| "rx_items (Some JNull) = Inl TypeError"
| "rx_items (Some (JArr xs)) = Inr (map Some xs)"
| "rx_items (Some (JStr s)) = Inr (map (\<lambda>c. Some (JStr [c])) s)"
| "rx_items (Some (JObj kvs)) =
     (case map_of kvs ''length'' of
        Some (JNum n) \<Rightarrow> Inr (map (\<lambda>i. map_of kvs (decimal i)) [0 ..< nat \<lceil>n\<rceil>])
      | _ \<Rightarrow> Inr [])"
| "rx_items (Some (JBool b)) = Inr []"
| "rx_items (Some (JNum n)) = Inr []"

subsection \<open>The hint of an API error\<close>

text \<open>
  \<open>get hint()\<close> of \<open>QSysApiError\<close>: a \<open>switch\<close> on \<open>this.code\<close>, compared with \<open>===\<close>
  to the numbers of the QRC protocol.  The texts are the source's, letter for letter.
\<close>

definition hint :: "QSysApiError \<Rightarrow> string" where
  "hint e =
    (if code e = Some (JNum (- 32700)) then
       ''Parse error. Invalid JSON was received by the server.''
     else if code e = Some (JNum (- 32600)) then
       ''Invalid request. The JSON sent is not a valid Request object.''
     else if code e = Some (JNum (- 32601)) then ''Method not found.''
     else if code e = Some (JNum (- 32602)) then ''Invalid params.''
     else if code e = Some (JNum (- 32603)) then ''Server error.''
     else if code e = Some (JNum (- 32604)) then
       ''Core is on Standby. This code is returned when a QRC command is received while the Core is not the active Core in a redundant Core configuration.''
     else if code e = Some (JNum 2) then ''Invalid Page Request ID''
     else if code e = Some (JNum 3) then
       ''Bad Page Request - could not create the requested Page Request''
     else if code e = Some (JNum 4) then ''Missing file''
     else if code e = Some (JNum 5) then ''Change Groups exhausted''
     else if code e = Some (JNum 6) then ''Unknown change croup''
     else if code e = Some (JNum 7) then ''Unknown component name''
     else if code e = Some (JNum 8) then ''Unknown control''
     else if code e = Some (JNum 9) then ''Illegal mixer channel index''
     else if code e = Some (JNum 10) then ''Logon required''
     else ''Unknown Error'')"


section \<open>The state of a client\<close>

text \<open>
  A socket is named by the order in which \<open>net.connect\<close> created it.  A byte of a
  \<open>Buffer\<close> is a \<open>char\<close>; the delimiter of the wire format is the byte \<open>0x00\<close>.
\<close>

type_synonym sock = nat

definition NUL :: char where
  "NUL = CHR 0x00"

text \<open>
  The two revisions of \<open>NodeHandler.send\<close> that return a promise: the TypeScript source
  (\<open>src/nodes/qsys-config/qsys-config.ts\<close>), whose response listener always resolves,
  and the built client (\<open>dist/nodes/qsys-config/qsys-config.js\<close>), whose listener rejects
  with a \<open>QSysApiError\<close> when the response carries an \<open>error\<close>, and whose Logon
  handler builds a \<open>QSysApiError\<close> likewise.  They differ in nothing else that is
  modelled here.  (The files also hold an older snapshot of the client, from before
  requests were matched with responses; it is not modelled.)
\<close>

datatype revision = Source_ts | Dist_js

text \<open>
  What the handlers read of the node and its configuration: whether
  \<open>config.authentication\<close> is truthy, \<open>node.name\<close>, the text \<open>${host}:${port}\<close> of the
  target (from \<open>config.host\<close>; it only appears in messages), and the credentials, a
  field being \<open>None\<close> when it is \<open>undefined\<close>.
\<close>

record config =
  revision :: revision
  authentication :: bool
  node_name :: string
  target :: string
  username :: "string option"
  password :: "string option"

text \<open>\<open>Partial<QsysMessage>\<close>: any field may be absent.\<close>

record msg =
  m_jsonrpc :: "string option"
  m_method :: "string option"
  m_id :: "rat option"
  m_params :: "json option"

datatype status =
  Status_Idle | Status_Active | Status_Standby | Status_Error | Status_Inactive | Status_Connected

text \<open>
  What a run shows to the outside: the events the node emits, the lines it logs, the
  calls of the status callbacks (by the id they were registered under, with the three
  arguments), the calls of \<open>net.connect\<close> and the frames written
  (\<open>Write k m\<close> is \<open>socket.write(this.encapsulate(m))\<close> on socket \<open>k\<close>).
\<close>

datatype obs =
    Emit_ready
  | Emit_rx "json option"
  | Emit_package json
  | Node_error error
  | Node_debug string
  | Status_call string "sock option" status "error option"
  | Connect_call sock
  | Write sock msg

text \<open>
  One call of \<open>send\<close> that reached its \<open>new Promise\<close>: the call (which names the promise,
  the listener closure and the timer), \<open>input.id\<close>, and, for the Logon request that the
  \<open>ready\<close> handler of a socket sends, that socket, whose \<open>then\<close>/\<open>catch\<close> handlers
  consume the promise.
\<close>

record pending =
  p_call :: nat
  p_id :: rat
  p_logon :: "sock option"

datatype outcome = Resolved json | Rejected error

datatype conn_outcome = Conn_resolved | Conn_rejected error

text \<open>
  The reactions of settled promises that wait in the microtask queue: the \<open>then\<close> and the
  \<open>catch\<close> handler of a Logon request, and the rest of a \<open>send\<close> that awaited
  \<open>getSocket()\<close>.
\<close>

datatype task =
    Logon_then sock json
  | Logon_catch sock error
  | Send_resume pending msg sock
  | Send_reject pending error

text \<open>
  The fields of \<open>NodeHandler\<close> (\<open>socket\<close>, \<open>connectionPromise\<close> as the connection attempt
  whose promise it holds, \<open>noOpIntervalId\<close>, the keys of \<open>statusCallbacks\<close> in insertion
  order), the module's \<open>lastId\<close>, and the runtime's side of the handler: the sockets
  created and destroyed, the outcome of each connection promise, the calls of \<open>send\<close>
  that await one, the \<open>package\<close> listeners of the node in registration order, the armed
  timers, the outcome of each promise of \<open>send\<close>, the microtask queue and the log.
\<close>

record state =
  socket :: "sock option"
  connectionPromise :: "sock option"
  noOpIntervalId :: bool
  interval_running :: bool
  statusCallbacks :: "string list"
  lastId :: nat
  opened :: nat
  destroyed :: "sock set"
  conn_settled :: "(sock \<times> conn_outcome) list"
  waiting :: "(sock \<times> pending \<times> msg) list"
  next_call :: nat
  listeners :: "pending list"
  timers :: "pending list"
  settled :: "(nat \<times> outcome) list"
  microtasks :: "task list"
  log :: "obs list"

definition init_state :: state where
  "init_state =
     \<lparr>socket = None, connectionPromise = None, noOpIntervalId = False,
      interval_running = False, statusCallbacks = [], lastId = 0, opened = 0,
      destroyed = {}, conn_settled = [], waiting = [], next_call = 0, listeners = [],
      timers = [], settled = [], microtasks = [], log = []\<rparr>"

definition emit :: "obs \<Rightarrow> state \<Rightarrow> state" where
  "emit x s = s\<lparr>log := log s @ [x]\<rparr>"

section \<open>The operations of \<open>NodeHandler\<close>\<close>

text \<open>
  \<open>closeSocket(socket)\<close>: \<open>socket?.destroy()\<close>; the assignment to the parameter that
  follows changes nothing outside the call.
\<close>

fun closeSocket :: "sock option \<Rightarrow> state \<Rightarrow> state" where
  "closeSocket None s = s"
| "closeSocket (Some k) s = s\<lparr>destroyed := insert k (destroyed s)\<rparr>"

text \<open>\<open>updateStatus\<close>: every registered callback, in the order of the map.\<close>

definition updateStatus :: "status \<Rightarrow> error option \<Rightarrow> state \<Rightarrow> state" where
  "updateStatus st err s =
     s\<lparr>log := log s @ map (\<lambda>n. Status_call n (socket s) st err) (statusCallbacks s)\<rparr>"

definition registerStatusCallback :: "string \<Rightarrow> state \<Rightarrow> state" where
  "registerStatusCallback nodeId s =
     (if nodeId \<in> set (statusCallbacks s) then s
      else s\<lparr>statusCallbacks := statusCallbacks s @ [nodeId]\<rparr>)"

definition unregisterStatusCallback :: "string \<Rightarrow> state \<Rightarrow> state" where
  "unregisterStatusCallback nodeId s =
     (if nodeId \<in> set (statusCallbacks s)
      then s\<lparr>statusCallbacks := removeAll nodeId (statusCallbacks s)\<rparr> else s)"

subsection \<open>Promises\<close>

text \<open>
  \<open>resolve\<close>/\<open>reject\<close> of the promise of a call of \<open>send\<close>: the first settles it, a
  later one does nothing.  Settling queues the reaction of the Logon handlers when the
  call is a Logon request; the reactions of other callers are outside the client.
\<close>

definition settle :: "pending \<Rightarrow> outcome \<Rightarrow> state \<Rightarrow> state" where
  "settle p out s =
     (if p_call p \<in> fst ` set (settled s) then s
      else s\<lparr>settled := settled s @ [(p_call p, out)],
             microtasks := microtasks s @
               (case p_logon p of
                  None \<Rightarrow> []
                | Some k \<Rightarrow>
                    [case out of Resolved d \<Rightarrow> Logon_then k d | Rejected e \<Rightarrow> Logon_catch k e])\<rparr>)"

text \<open>
  \<open>resolve(socket)\<close>/\<open>reject(error)\<close> of the connection promise of attempt \<open>k\<close>: every
  \<open>send\<close> that awaits it goes to the microtask queue, to go on with the socket or to
  return the rejection.
\<close>

definition settle_conn :: "sock \<Rightarrow> conn_outcome \<Rightarrow> state \<Rightarrow> state" where
  "settle_conn k out s =
     (if k \<in> fst ` set (conn_settled s) then s
      else s\<lparr>conn_settled := conn_settled s @ [(k, out)],
             waiting := filter (\<lambda>w. fst w \<noteq> k) (waiting s),
             microtasks := microtasks s @
               map (\<lambda>w. case out of
                           Conn_resolved \<Rightarrow> Send_resume (fst (snd w)) (snd (snd w)) k
                         | Conn_rejected e \<Rightarrow> Send_reject (fst (snd w)) e)
                   (filter (\<lambda>w. fst w = k) (waiting s))\<rparr>)"

text \<open>The two closures of \<open>initSocket\<close>, for the attempt that created socket \<open>k\<close>.\<close>

definition handleReject :: "sock \<Rightarrow> error \<Rightarrow> state \<Rightarrow> state" where
  "handleReject k e s =
     settle_conn k (Conn_rejected e)
       (updateStatus Status_Error (Some e) (s\<lparr>connectionPromise := None\<rparr>))"

definition handleResolve :: "sock \<Rightarrow> state \<Rightarrow> state" where
  "handleResolve k s =
     settle_conn k Conn_resolved
       (updateStatus Status_Connected None
          ((if socket s \<noteq> None then closeSocket (socket s) s else s)
             \<lparr>socket := Some k, connectionPromise := None\<rparr>))"

subsection \<open>\<open>getSocket\<close> and \<open>initSocket\<close>\<close>

text \<open>
  What a caller of \<open>getSocket\<close> awaits: a promise already fulfilled with a socket, or the
  connection promise of an attempt.
\<close>

datatype awaited = Now sock | Later sock

text \<open>
  \<open>initSocket\<close>: the stored promise when there is one; otherwise a new attempt, whose
  executor runs at once: \<open>net.connect\<close> creates the socket, the handlers are attached (they
  are the function \<open>on_event\<close> below), and the no-op interval is started unless
  \<open>noOpIntervalId\<close> is set.
\<close>

definition initSocket :: "state \<Rightarrow> awaited \<times> state" where
  "initSocket s =
     (case connectionPromise s of
        Some k \<Rightarrow> (Later k, s)
      | None \<Rightarrow>
          (let k = opened s in
           (Later k,
            s\<lparr>opened := Suc k, connectionPromise := Some k,
              interval_running := (if noOpIntervalId s then interval_running s else True),
              noOpIntervalId := True,
              log := log s @ [Connect_call k]\<rparr>)))"

definition getSocket :: "state \<Rightarrow> awaited \<times> state" where
  "getSocket s = (case socket s of Some k \<Rightarrow> (Now k, s) | None \<Rightarrow> initSocket s)"

subsection \<open>\<open>send\<close>\<close>

text \<open>
  The part of \<open>send\<close> after the socket is known: the frame is written, the listener is
  added to the \<open>package\<close> listeners and the timer of 10 seconds is armed.
\<close>

definition transmit :: "pending \<Rightarrow> msg \<Rightarrow> sock \<Rightarrow> state \<Rightarrow> state" where
  "transmit p m k s =
     s\<lparr>log := log s @ [Write k m], listeners := listeners s @ [p], timers := timers s @ [p]\<rparr>"

text \<open>\<open>await\<close> of what \<open>getSocket\<close> returned.\<close>

definition await_socket :: "awaited \<Rightarrow> pending \<Rightarrow> msg \<Rightarrow> state \<Rightarrow> state" where
  "await_socket a p m s =
     (case a of
        Now k \<Rightarrow> s\<lparr>microtasks := microtasks s @ [Send_resume p m k]\<rparr>
      | Later k \<Rightarrow>
          (case map_of (conn_settled s) k of
             None \<Rightarrow> s\<lparr>waiting := waiting s @ [(k, p, m)]\<rparr>
           | Some Conn_resolved \<Rightarrow> s\<lparr>microtasks := microtasks s @ [Send_resume p m k]\<rparr>
           | Some (Conn_rejected e) \<Rightarrow> s\<lparr>microtasks := microtasks s @ [Send_reject p e]\<rparr>))"

text \<open>
  \<open>send(input, forcedSocket)\<close>, with the socket whose Logon handlers consume the promise
  (\<open>None\<close> for every other caller).  The message is stamped, an absent \<open>id\<close> is taken
  from \<open>reserveId()\<close>; with a forced socket the call goes on at once, otherwise it awaits
  \<open>getSocket()\<close>.
\<close>

definition send :: "msg \<Rightarrow> sock option \<Rightarrow> sock option \<Rightarrow> state \<Rightarrow> state" where
  "send input forcedSocket lg s =
     (let i = (case m_id input of None \<Rightarrow> of_nat (lastId s) | Some j \<Rightarrow> j);
          s1 = (case m_id input of None \<Rightarrow> s\<lparr>lastId := Suc (lastId s)\<rparr> | Some j \<Rightarrow> s);
          m = input\<lparr>m_jsonrpc := Some ''2.0'',
                    m_params := Some (case m_params input of None \<Rightarrow> JNum 0 | Some v \<Rightarrow> v),
                    m_id := Some i\<rparr>;
          p = \<lparr>p_call = next_call s1, p_id = i, p_logon = lg\<rparr>;
          s2 = s1\<lparr>next_call := Suc (next_call s1)\<rparr>
      in case forcedSocket of
           Some k \<Rightarrow> transmit p m k s2
         | None \<Rightarrow> (case getSocket s2 of (a, s3) \<Rightarrow> await_socket a p m s3))"

text \<open>The text of the timeout error of \<open>send\<close>.\<close>

definition timeout_message :: "config \<Rightarrow> string" where
  "timeout_message cfg =
     ''Q-SYS device '' @ [CHR 0x22] @ node_name cfg @ [CHR 0x22] @
     '' did not respond within 10 seconds.''"

text \<open>
  The callback of the timer of a call: \<open>reject(new Error(...))\<close>, and nothing else.
\<close>

definition on_timer :: "config \<Rightarrow> nat \<Rightarrow> state \<Rightarrow> state" where
  "on_timer cfg c s =
     (case filter (\<lambda>p. p_call p = c) (timers s) of
        [] \<Rightarrow> s
      | p # ps \<Rightarrow>
          settle p (Rejected (Error (timeout_message cfg)))
            (s\<lparr>timers := filter (\<lambda>q. p_call q \<noteq> c) (timers s)\<rparr>))"

text \<open>
  The listener that \<open>send\<close> adds: when \<open>data.id === input.id\<close> it clears the timer and
  removes itself; the source then resolves with the response; the built client first
  rejects with a \<open>QSysApiError\<close> when \<open>data.error !== undefined\<close>, reading \<open>code\<close> and
  \<open>message\<close> of it (a \<open>TypeError\<close> when the error is \<open>null\<close>).  The result holds the
  exception, if one was raised, and the state reached.
\<close>

definition listener :: "config \<Rightarrow> pending \<Rightarrow> json \<Rightarrow> state \<Rightarrow> error option \<times> state" where
  "listener cfg p data s =
     (case get_prop (Some data) ''id'' of
        Inl x \<Rightarrow> (Some x, s)
      | Inr i \<Rightarrow>
          if i = Some (JNum (p_id p)) then
            (let s1 = s\<lparr>timers := filter (\<lambda>q. p_call q \<noteq> p_call p) (timers s),
                        listeners := filter (\<lambda>q. p_call q \<noteq> p_call p) (listeners s)\<rparr>
             in case revision cfg of
                  Source_ts \<Rightarrow> (None, settle p (Resolved data) s1)
                | Dist_js \<Rightarrow>
                    (case get_prop (Some data) ''error'' of
                       Inl x \<Rightarrow> (Some x, s1)
                     | Inr None \<Rightarrow> (None, settle p (Resolved data) s1)
                     | Inr (Some e) \<Rightarrow>
                         (case get_prop (Some e) ''code'' of
                            Inl x \<Rightarrow> (Some x, s1)
                          | Inr c \<Rightarrow>
                              (case get_prop (Some e) ''message'' of
                                 Inl x \<Rightarrow> (Some x, s1)
                               | Inr t \<Rightarrow>
                                   (None,
                                    settle p (Resolved data)
                                      (settle p (Rejected (ApiError \<lparr>code = c, message = t\<rparr>))
                                         s1))))))
          else (None, s))"

text \<open>
  \<open>this.node.emit("package", obj)\<close>: the listeners registered at the time of the call,
  in registration order; an exception of a listener ends the call.
\<close>

fun run_listeners :: "config \<Rightarrow> pending list \<Rightarrow> json \<Rightarrow> state \<Rightarrow> error option \<times> state" where
  "run_listeners cfg [] data s = (None, s)"
| "run_listeners cfg (p # ps) data s =
     (case listener cfg p data s of
        (Some x, s') \<Rightarrow> (Some x, s')
      | (None, s') \<Rightarrow> run_listeners cfg ps data s')"

definition emit_package :: "config \<Rightarrow> json \<Rightarrow> state \<Rightarrow> error option \<times> state" where
  "emit_package cfg obj s = run_listeners cfg (listeners s) obj (emit (Emit_package obj) s)"


subsection \<open>\<open>receive\<close>\<close>

text \<open>
  The case \<open>EngineStatus\<close> of the \<open>switch\<close>: \<open>data.params.State\<close> is read; \<open>Active\<close>
  emits \<open>ready\<close>, \<open>Standby\<close> calls \<open>this.closeSocket(this.socket)\<close>.
\<close>

definition engine_status :: "json \<Rightarrow> state \<Rightarrow> error option \<times> state" where
  "engine_status obj s =
     (case get_prop (Some obj) ''params'' of
        Inl x \<Rightarrow> (Some x, s)
      | Inr ps \<Rightarrow>
          (case get_prop ps ''State'' of
             Inl x \<Rightarrow> (Some x, s)
           | Inr st \<Rightarrow>
               if st = Some (JStr ''Active'') then (None, emit Emit_ready s)
               else if st = Some (JStr ''Standby'') then (None, closeSocket (socket s) s)
               else (None, s)))"

text \<open>
  The case \<open>ChangeGroup.Poll\<close>: one \<open>rx\<close> event for each item of
  \<open>data.result.Changes\<close>, in order.
\<close>

definition change_group_poll :: "json \<Rightarrow> state \<Rightarrow> error option \<times> state" where
  "change_group_poll obj s =
     (case get_prop (Some obj) ''result'' of
        Inl x \<Rightarrow> (Some x, s)
      | Inr r \<Rightarrow>
          (case get_prop r ''Changes'' of
             Inl x \<Rightarrow> (Some x, s)
           | Inr changes \<Rightarrow>
               (case rx_items changes of
                  Inl x \<Rightarrow> (Some x, s)
                | Inr items \<Rightarrow> (None, s\<lparr>log := log s @ map Emit_rx items\<rparr>))))"

text \<open>\<open>switch (obj.method)\<close>, entered when \<open>"method" in obj\<close>.\<close>

definition dispatch :: "json \<Rightarrow> state \<Rightarrow> error option \<times> state" where
  "dispatch obj s =
     (case get_prop (Some obj) ''method'' of
        Inl x \<Rightarrow> (Some x, s)
      | Inr m \<Rightarrow>
          if m = Some (JStr ''EngineStatus'') then engine_status obj s
          else if m = Some (JStr ''ChangeGroup.Poll'') then change_group_poll obj s
          else (None, s))"

text \<open>
  The body of the \<open>try\<close> of \<open>receive\<close> up to, and without, \<open>rx = []\<close>: the bytes collected
  in \<open>rx\<close> are parsed, the object is dispatched on its method and emitted as
  \<open>package\<close>.  \<open>JSON.parse(Buffer.from(rx).toString())\<close> is a parameter: the decoder of
  the runtime, from the bytes to a value, \<open>None\<close> when it raises its \<open>SyntaxError\<close>.
\<close>

definition process_frame ::
  "(string \<Rightarrow> json option) \<Rightarrow> config \<Rightarrow> string \<Rightarrow> state \<Rightarrow> error option \<times> state" where
  "process_frame parse cfg rx s =
     (case parse rx of
        None \<Rightarrow> (Some SyntaxError, s)
      | Some obj \<Rightarrow>
          (case has_method obj of
             Inl x \<Rightarrow> (Some x, s)
           | Inr hm \<Rightarrow>
               (case (if hm then dispatch obj s else (None, s)) of
                  (Some x, s1) \<Rightarrow> (Some x, s1)
                | (None, s1) \<Rightarrow> emit_package cfg obj s1)))"

text \<open>
  The loop of \<open>receive\<close> over the bytes of one chunk, with the local array \<open>rx\<close>.  At a
  zero byte the \<open>try\<close> runs: when it completes, \<open>rx\<close> is emptied; when it raises, the
  \<open>catch\<close> logs the message and \<open>rx\<close> keeps its bytes.  Any other byte is pushed to
  \<open>rx\<close>.  (\<open>data.length != 0\<close> holds inside the loop.)
\<close>

fun receive_loop ::
  "(string \<Rightarrow> json option) \<Rightarrow> config \<Rightarrow> string \<Rightarrow> string \<Rightarrow> state \<Rightarrow> state" where
  "receive_loop parse cfg [] rx s = s"
| "receive_loop parse cfg (b # bs) rx s =
     (if b = NUL then
        (case process_frame parse cfg rx s of
           (None, s') \<Rightarrow> receive_loop parse cfg bs [] s'
         | (Some x, s') \<Rightarrow> receive_loop parse cfg bs rx (emit (Node_error x) s'))
      else receive_loop parse cfg bs (rx @ [b]) s)"

text \<open>\<open>receive(data)\<close>: \<open>let rx = []\<close>, then the loop.\<close>

definition receive :: "(string \<Rightarrow> json option) \<Rightarrow> config \<Rightarrow> string \<Rightarrow> state \<Rightarrow> state" where
  "receive parse cfg data s = receive_loop parse cfg data [] s"

section \<open>Events\<close>

text \<open>
  What the runtime delivers to the client: the events of a socket that \<open>initSocket\<close>
  listens to, the \<open>close\<close> event of the node, the expiry of the timer of a call of
  \<open>send\<close>, and the calls of the public methods by the other nodes.  The code of the
  other nodes is outside the model: their status callbacks are taken to return normally,
  and the events \<open>ready\<close> and \<open>rx\<close>, for which the repository registers no listener,
  are only recorded.  Time is not modelled: a timer fires when its event is delivered.
\<close>

datatype event =
    Ev_ready sock
  | Ev_connect sock
  | Ev_close sock
  | Ev_end sock
  | Ev_timeout sock
  | Ev_connectionAttemptFailed sock
  | Ev_connectionAttemptTimeout sock
  | Ev_error sock "int option" string
  | Ev_data sock string
  | Ev_node_close
  | Ev_timer nat
  | Ev_send msg
  | Ev_register string
  | Ev_unregister string

text \<open>The Logon request of the \<open>ready\<close> handler.\<close>

definition logon_msg :: "config \<Rightarrow> msg" where
  "logon_msg cfg =
     \<lparr>m_jsonrpc = Some ''2.0'', m_method = Some ''Logon'', m_id = None,
      m_params = Some (JObj
        ((case username cfg of None \<Rightarrow> [] | Some u \<Rightarrow> [(''User'', JStr u)]) @
         (case password cfg of None \<Rightarrow> [] | Some w \<Rightarrow> [(''Password'', JStr w)])))\<rparr>"

text \<open>
  The handlers of \<open>close\<close>, \<open>end\<close> and \<open>timeout\<close> of socket \<open>k\<close> are the same but for
  the text they log.
\<close>

definition on_teardown :: "string \<Rightarrow> sock \<Rightarrow> state \<Rightarrow> state" where
  "on_teardown text k s =
     emit (Node_debug text)
       (let s1 = closeSocket (Some k) s
        in if socket s1 = Some k then s1\<lparr>socket := None\<rparr> else s1)"

text \<open>
  The handler of one event, up to the end of its synchronous code.  A socket that was
  never created has no handlers.
\<close>

fun on_event :: "(string \<Rightarrow> json option) \<Rightarrow> config \<Rightarrow> event \<Rightarrow> state \<Rightarrow> state" where
  "on_event parse cfg (Ev_ready k) s =
     (if k < opened s \<and> authentication cfg then send (logon_msg cfg) (Some k) (Some k) s
      else s)"
| "on_event parse cfg (Ev_connect k) s =
     (if k < opened s then
        (let s1 = emit (Node_debug (''Connection to socket to '' @ target cfg @ '' established.'')) s
         in if \<not> authentication cfg then handleResolve k s1 else s1)
      else s)"
| "on_event parse cfg (Ev_close k) s =
     (if k < opened s then on_teardown (''Socket to '' @ target cfg @ '' closed.'') k s else s)"
| "on_event parse cfg (Ev_end k) s =
     (if k < opened s then on_teardown (''Socket to '' @ target cfg @ '' ended.'') k s else s)"
| "on_event parse cfg (Ev_timeout k) s =
     (if k < opened s then on_teardown (''Socket to '' @ target cfg @ '' timed out.'') k s
      else s)"
| "on_event parse cfg (Ev_connectionAttemptFailed k) s =
     (if k < opened s then
        handleReject k (Error (''Connecting to socket '' @ target cfg @ '' failed.''))
          (closeSocket (Some k) s)
      else s)"
| "on_event parse cfg (Ev_connectionAttemptTimeout k) s =
     (if k < opened s then
        handleReject k (Error (''Connecting to socket '' @ target cfg @ '' timed out.''))
          (closeSocket (Some k) s)
      else s)"
| "on_event parse cfg (Ev_error k errno text) s =
     (if k < opened s then
        (let s1 = emit (Node_error (Error text)) s
         in if errno = Some (- 4078) then closeSocket (Some k) s1 else s1)
      else s)"
| "on_event parse cfg (Ev_data k data) s =
     (if k < opened s then receive parse cfg data s else s)"
| "on_event parse cfg Ev_node_close s =
     (let s1 = (if noOpIntervalId s then s\<lparr>interval_running := False\<rparr> else s)
      in s1\<lparr>destroyed := destroyed s1 \<union> set [0 ..< opened s1]\<rparr>)"
| "on_event parse cfg (Ev_timer c) s = on_timer cfg c s"
| "on_event parse cfg (Ev_send m) s = send m (socket s) None s"
| "on_event parse cfg (Ev_register n) s = registerStatusCallback n s"
| "on_event parse cfg (Ev_unregister n) s = unregisterStatusCallback n s"

subsection \<open>The microtask queue\<close>

text \<open>
  The \<open>then\<close> handler of the Logon request: \<open>if (response.error)\<close> rejects the attempt,
  with \<open>new Error(response.error)\<close> in the source and
  \<open>new QSysApiError(response.error.code, response.error.message)\<close> in the built client;
  otherwise the attempt is resolved with the socket.  An exception of the handler goes to
  the \<open>catch\<close> handler, which rejects the attempt with it.
\<close>

definition logon_then :: "config \<Rightarrow> sock \<Rightarrow> json \<Rightarrow> state \<Rightarrow> state" where
  "logon_then cfg k response s =
     (case get_prop (Some response) ''error'' of
        Inl x \<Rightarrow> handleReject k x s
      | Inr None \<Rightarrow> handleResolve k s
      | Inr (Some e) \<Rightarrow>
          if truthy (Some e) then
            (case revision cfg of
               Source_ts \<Rightarrow> handleReject k (ErrorOf e) s
             | Dist_js \<Rightarrow>
                 (case get_prop (Some e) ''code'' of
                    Inl x \<Rightarrow> handleReject k x s
                  | Inr c \<Rightarrow>
                      (case get_prop (Some e) ''message'' of
                         Inl x \<Rightarrow> handleReject k x s
                       | Inr t \<Rightarrow> handleReject k (ApiError \<lparr>code = c, message = t\<rparr>) s)))
          else handleResolve k s)"

fun run_task :: "config \<Rightarrow> task \<Rightarrow> state \<Rightarrow> state" where
  "run_task cfg (Logon_then k response) s = logon_then cfg k response s"
| "run_task cfg (Logon_catch k e) s = handleReject k e s"
| "run_task cfg (Send_resume p m k) s = transmit p m k s"
| "run_task cfg (Send_reject p e) s = settle p (Rejected e) s"

text \<open>
  The weight of what is still to run: a task that can queue a further task weighs more
  than the task it queues.
\<close>

fun task_weight :: "task \<Rightarrow> nat" where
  "task_weight (Send_reject p e) = 2"
| "task_weight t = 1"

definition queue_weight :: "state \<Rightarrow> nat" where
  "queue_weight s = sum_list (map task_weight (microtasks s)) + 2 * length (waiting s)"

lemma weight_settle:
  "queue_weight (settle p out s) \<le> queue_weight s + 1"
  by (simp add: settle_def queue_weight_def split: option.splits outcome.splits)

lemma task_weight_le: "task_weight t \<le> 2"
  by (cases t) auto

lemma sum_weight_le: "sum_list (map task_weight ts) \<le> 2 * length ts"
proof (induction ts)
  case Nil
  show ?case by simp
next
  case (Cons t ts)
  with task_weight_le [of t] show ?case by simp
qed

lemma length_filter_split:
  "length (filter P ws) + length (filter (\<lambda>w. \<not> P w) ws) = length ws"
  by (induction ws) auto

lemma weight_settle_conn:
  "queue_weight (settle_conn k out s) \<le> queue_weight s"
proof (cases "k \<in> fst ` set (conn_settled s)")
  case True
  then show ?thesis by (simp add: settle_conn_def)
next
  case False
  define new where
    "new = map (\<lambda>w. case out of
                       Conn_resolved \<Rightarrow> Send_resume (fst (snd w)) (snd (snd w)) k
                     | Conn_rejected e \<Rightarrow> Send_reject (fst (snd w)) e)
               (filter (\<lambda>w. fst w = k) (waiting s))"
  have len: "length new = length (filter (\<lambda>w. fst w = k) (waiting s))"
    by (simp add: new_def)
  have split: "length (filter (\<lambda>w. fst w = k) (waiting s)) +
      length (filter (\<lambda>w. fst w \<noteq> k) (waiting s)) = length (waiting s)"
    using length_filter_split [of "\<lambda>w. fst w = k" "waiting s"] by simp
  have "queue_weight (settle_conn k out s) =
      sum_list (map task_weight (microtasks s)) + sum_list (map task_weight new) +
      2 * length (filter (\<lambda>w. fst w \<noteq> k) (waiting s))"
    using False by (simp add: settle_conn_def queue_weight_def new_def)
  also have "\<dots> \<le> sum_list (map task_weight (microtasks s)) + 2 * length new +
      2 * length (filter (\<lambda>w. fst w \<noteq> k) (waiting s))"
    using sum_weight_le [of new] by simp
  also have "\<dots> = queue_weight s"
    using len split by (simp add: queue_weight_def)
  finally show ?thesis .
qed

lemma weight_handleReject: "queue_weight (handleReject k e s) \<le> queue_weight s"
proof -
  have "queue_weight (handleReject k e s) \<le> queue_weight (updateStatus Status_Error (Some e) (s\<lparr>connectionPromise := None\<rparr>))"
    unfolding handleReject_def by (rule weight_settle_conn)
  also have "\<dots> = queue_weight s" by (simp add: queue_weight_def updateStatus_def)
  finally show ?thesis .
qed

lemma weight_handleResolve: "queue_weight (handleResolve k s) \<le> queue_weight s"
proof -
  let ?s1 = "(if socket s \<noteq> None then closeSocket (socket s) s else s)\<lparr>socket := Some k, connectionPromise := None\<rparr>"
  have "queue_weight (handleResolve k s) \<le> queue_weight (updateStatus Status_Connected None ?s1)"
    unfolding handleResolve_def by (rule weight_settle_conn)
  also have "\<dots> = queue_weight s"
    by (cases "socket s") (simp_all add: queue_weight_def updateStatus_def)
  finally show ?thesis .
qed

lemma weight_logon_then: "queue_weight (logon_then cfg k r s) \<le> queue_weight s"
  by (simp add: logon_then_def weight_handleReject weight_handleResolve
      split: sum.splits option.splits revision.splits)

lemma weight_run_task:
  "queue_weight (run_task cfg t (s\<lparr>microtasks := ts\<rparr>)) < queue_weight (s\<lparr>microtasks := t # ts\<rparr>)"
proof (cases t)
  case (Logon_then k r)
  have "queue_weight (logon_then cfg k r (s\<lparr>microtasks := ts\<rparr>)) \<le> queue_weight (s\<lparr>microtasks := ts\<rparr>)"
    by (rule weight_logon_then)
  with Logon_then show ?thesis by (simp add: queue_weight_def)
next
  case (Logon_catch k e)
  have "queue_weight (handleReject k e (s\<lparr>microtasks := ts\<rparr>)) \<le> queue_weight (s\<lparr>microtasks := ts\<rparr>)"
    by (rule weight_handleReject)
  with Logon_catch show ?thesis by (simp add: queue_weight_def)
next
  case (Send_resume p m k)
  then show ?thesis by (simp add: queue_weight_def transmit_def)
next
  case (Send_reject p e)
  have "queue_weight (settle p (Rejected e) (s\<lparr>microtasks := ts\<rparr>)) \<le> queue_weight (s\<lparr>microtasks := ts\<rparr>) + 1"
    by (rule weight_settle)
  with Send_reject show ?thesis by (simp add: queue_weight_def)
qed

text \<open>
  The microtask queue is emptied after the synchronous code of a handler, first in,
  first out; a task may queue further tasks.
\<close>

function drain :: "config \<Rightarrow> state \<Rightarrow> state" where
  "drain cfg s =
     (case microtasks s of
        [] \<Rightarrow> s
      | t # ts \<Rightarrow> drain cfg (run_task cfg t (s\<lparr>microtasks := ts\<rparr>)))"
  by pat_completeness auto
termination
proof (relation "measure (\<lambda>(cfg, s). queue_weight s)")
  show "wf (measure (\<lambda>(cfg, s). queue_weight s))" by simp
next
  fix cfg :: config and s :: state and t ts
  assume "microtasks s = t # ts"
  then have "s\<lparr>microtasks := t # ts\<rparr> = s" by simp
  then show "((cfg, run_task cfg t (s\<lparr>microtasks := ts\<rparr>)), (cfg, s)) \<in> measure (\<lambda>(cfg, s). queue_weight s)"
    using weight_run_task [where cfg = cfg and t = t and s = s and ts = ts] by simp
qed

declare drain.simps [simp del]

text \<open>One turn of the event loop: the handler of the event, then the microtasks.\<close>

definition step :: "(string \<Rightarrow> json option) \<Rightarrow> config \<Rightarrow> event \<Rightarrow> state \<Rightarrow> state" where
  "step parse cfg ev s = drain cfg (on_event parse cfg ev s)"

fun run :: "(string \<Rightarrow> json option) \<Rightarrow> config \<Rightarrow> event list \<Rightarrow> state \<Rightarrow> state" where
  "run parse cfg [] s = s"
| "run parse cfg (ev # evs) s = run parse cfg evs (step parse cfg ev s)"

lemma drain_Nil: "microtasks s = [] \<Longrightarrow> drain cfg s = s"
  by (simp add: drain.simps)

lemma drain_Cons:
  "microtasks s = t # ts \<Longrightarrow> drain cfg s = drain cfg (run_task cfg t (s\<lparr>microtasks := ts\<rparr>))"
  by (subst drain.simps) simp

section \<open>A decoder for the examples\<close>

text \<open>
  \<open>JSON.parse\<close> belongs to the runtime, and every general theorem below holds for any
  decoder.  The closed examples need one: \<open>json_parse\<close> reads JSON texts whose strings
  have no escapes and whose numbers are integers (it answers \<open>None\<close> on an escape, a
  fraction or an exponent; none occurs in the examples).  White space is skipped and a
  repeated key keeps its last value, as \<open>JSON.parse\<close> does.  The recursion is bounded
  by twice the length of the text, which no nesting of the text exceeds.
\<close>

definition is_ws :: "char \<Rightarrow> bool" where
  "is_ws c = (c = CHR '' '' \<or> c = CHR 0x09 \<or> c = CHR 0x0A \<or> c = CHR 0x0D)"

definition is_digit :: "char \<Rightarrow> bool" where
  "is_digit c = (48 \<le> (of_char c :: nat) \<and> (of_char c :: nat) \<le> 57)"

fun parse_string :: "string \<Rightarrow> (string \<times> string) option" where
  "parse_string [] = None"
| "parse_string (c # cs) =
     (if c = CHR 0x22 then Some ([], cs)
      else if c = CHR 0x5C \<or> (of_char c :: nat) < 32 then None
      else (case parse_string cs of None \<Rightarrow> None | Some (t, r) \<Rightarrow> Some (c # t, r)))"

fun digits_value :: "nat \<Rightarrow> string \<Rightarrow> nat" where
  "digits_value acc [] = acc"
| "digits_value acc (c # cs) = digits_value (10 * acc + (of_char c - 48)) cs"

definition parse_number :: "string \<Rightarrow> (json \<times> string) option" where
  "parse_number s =
     (let neg = (s \<noteq> [] \<and> hd s = CHR ''-'');
          t = (if neg then tl s else s);
          ds = takeWhile is_digit t;
          r = dropWhile is_digit t
      in if ds = [] \<or> (length ds > 1 \<and> hd ds = CHR ''0'') then None
         else if r \<noteq> [] \<and> (hd r = CHR ''.'' \<or> hd r = CHR ''e'' \<or> hd r = CHR ''E'') then None
         else Some (JNum (if neg then - of_nat (digits_value 0 ds) else of_nat (digits_value 0 ds)), r))"

definition parse_literal :: "string \<Rightarrow> (json \<times> string) option" where
  "parse_literal s =
     (if take 4 s = ''true'' then Some (JBool True, drop 4 s)
      else if take 5 s = ''false'' then Some (JBool False, drop 5 s)
      else if take 4 s = ''null'' then Some (JNull, drop 4 s)
      else parse_number s)"

fun parse_value :: "nat \<Rightarrow> string \<Rightarrow> (json \<times> string) option"
  and parse_elements :: "nat \<Rightarrow> string \<Rightarrow> (json list \<times> string) option"
  and parse_members :: "nat \<Rightarrow> string \<Rightarrow> ((string \<times> json) list \<times> string) option" where
  "parse_value 0 s = None"
| "parse_value (Suc n) s =
     (case dropWhile is_ws s of
        [] \<Rightarrow> None
      | c # cs \<Rightarrow>
          if c = CHR ''{'' then
            (case dropWhile is_ws cs of
               [] \<Rightarrow> None
             | d # ds \<Rightarrow>
                 if d = CHR ''}'' then Some (JObj [], ds)
                 else (case parse_members n cs of
                         None \<Rightarrow> None
                       | Some (kvs, r) \<Rightarrow>
                           Some (JObj (foldl (\<lambda>al kv. AList.update (fst kv) (snd kv) al) [] kvs), r)))
          else if c = CHR ''['' then
            (case dropWhile is_ws cs of
               [] \<Rightarrow> None
             | d # ds \<Rightarrow>
                 if d = CHR '']'' then Some (JArr [], ds)
                 else (case parse_elements n cs of
                         None \<Rightarrow> None
                       | Some (vs, r) \<Rightarrow> Some (JArr vs, r)))
          else if c = CHR 0x22 then
            (case parse_string cs of None \<Rightarrow> None | Some (t, r) \<Rightarrow> Some (JStr t, r))
          else parse_literal (c # cs))"
| "parse_elements 0 s = None"
| "parse_elements (Suc n) s =
     (case parse_value n s of
        None \<Rightarrow> None
      | Some (v, r) \<Rightarrow>
          (case dropWhile is_ws r of
             [] \<Rightarrow> None
           | c # cs \<Rightarrow>
               if c = CHR '']'' then Some ([v], cs)
               else if c = CHR '','' then
                 (case parse_elements n cs of None \<Rightarrow> None | Some (vs, r') \<Rightarrow> Some (v # vs, r'))
               else None))"
| "parse_members 0 s = None"
| "parse_members (Suc n) s =
     (case dropWhile is_ws s of
        [] \<Rightarrow> None
      | q # s1 \<Rightarrow>
          if q \<noteq> CHR 0x22 then None
          else (case parse_string s1 of
                  None \<Rightarrow> None
                | Some (key, s2) \<Rightarrow>
                    (case dropWhile is_ws s2 of
                       [] \<Rightarrow> None
                     | c # s3 \<Rightarrow>
                         if c \<noteq> CHR '':'' then None
                         else (case parse_value n s3 of
                                 None \<Rightarrow> None
                               | Some (v, s4) \<Rightarrow>
                                   (case dropWhile is_ws s4 of
                                      [] \<Rightarrow> None
                                    | d # s5 \<Rightarrow>
                                        if d = CHR ''}'' then Some ([(key, v)], s5)
                                        else if d = CHR '','' then
                                          (case parse_members n s5 of
                                             None \<Rightarrow> None
                                           | Some (kvs, r) \<Rightarrow> Some ((key, v) # kvs, r))
                                        else None)))))"

definition json_parse :: "string \<Rightarrow> json option" where
  "json_parse s =
     (case parse_value (2 * length s + 2) s of
        None \<Rightarrow> None
      | Some (v, r) \<Rightarrow> if dropWhile is_ws r = [] then Some v else None)"

text \<open>The client used in the examples: the built client, without authentication.\<close>

definition cfg0 :: config where
  "cfg0 = \<lparr>revision = Dist_js, authentication = False, node_name = ''core'',
            target = ''127.0.0.1:1710'', username = None, password = None\<rparr>"

section \<open>Vocabulary of the claims\<close>

text \<open>A stream of frames on the wire: each frame followed by one zero byte.\<close>

definition frame_stream :: "string list \<Rightarrow> string" where
  "frame_stream fs = concat (map (\<lambda>f. f @ [NUL]) fs)"

text \<open>Feeding chunks one at a time: one call of \<open>receive\<close> for each.\<close>

fun receive_chunks ::
  "(string \<Rightarrow> json option) \<Rightarrow> config \<Rightarrow> string list \<Rightarrow> state \<Rightarrow> state" where
  "receive_chunks parse cfg [] s = s"
| "receive_chunks parse cfg (c # cs) s = receive_chunks parse cfg cs (receive parse cfg c s)"

text \<open>The objects emitted as \<open>package\<close>, in order.\<close>

fun packages :: "obs list \<Rightarrow> json list" where
  "packages [] = []"
| "packages (Emit_package obj # xs) = obj # packages xs"
| "packages (x # xs) = packages xs"

text \<open>
  The part of the state that \<open>receive\<close> and the listeners do not touch: the fields of the
  connection and the counters.
\<close>

definition connection_part ::
  "state \<Rightarrow> sock option \<times> sock option \<times> nat \<times> (sock \<times> conn_outcome) list \<times>
     (sock \<times> pending \<times> msg) list \<times> string list \<times> nat \<times> nat \<times> bool \<times> bool" where
  "connection_part s =
     (socket s, connectionPromise s, opened s, conn_settled s, waiting s, statusCallbacks s,
      lastId s, next_call s, noOpIntervalId s, interval_running s)"

text \<open>A request of another node, with an id of its own, for the examples.\<close>

definition msg5 :: msg where
  "msg5 = \<lparr>m_jsonrpc = None, m_method = Some ''StatusGet'', m_id = Some 5, m_params = None\<rparr>"

text \<open>A request of another node that leaves the id to \<open>reserveId\<close>.\<close>

definition msg_a :: msg where
  "msg_a = \<lparr>m_jsonrpc = None, m_method = Some ''StatusGet'', m_id = None, m_params = None\<rparr>"

text \<open>
  The microtasks that a call of \<open>send\<close> by another node can leave in the queue: the rest
  of a \<open>send\<close> whose promise no Logon handler consumes.
\<close>

fun plain_task :: "task \<Rightarrow> bool" where
  "plain_task (Send_resume p m k) = True"
| "plain_task (Send_reject p e) = (p_logon p = None)"
| "plain_task t = False"

text \<open>The test \<open>data.id === input.id\<close> of the listener of a call.\<close>

definition id_matches :: "json \<Rightarrow> pending \<Rightarrow> bool" where
  "id_matches data p = (get_prop (Some data) ''id'' = Inr (Some (JNum (p_id p))))"

text \<open>
  What the listener of a call settles its promise with when the response matches: the
  response itself, or in the built client, when the response has an \<open>error\<close> that is not
  \<open>null\<close>, a \<open>QSysApiError\<close> of the \<open>code\<close> and the \<open>message\<close> read from it (both
  \<open>undefined\<close> when the error is not an object).  Lemma \<open>listener_match\<close> relates it
  to the listener.
\<close>

definition response_outcome :: "config \<Rightarrow> json \<Rightarrow> outcome" where
  "response_outcome cfg data =
     (case revision cfg of
        Source_ts \<Rightarrow> Resolved data
      | Dist_js \<Rightarrow>
          (case get_prop (Some data) ''error'' of
             Inr (Some (JObj kvs)) \<Rightarrow>
               Rejected (ApiError \<lparr>code = map_of kvs ''code'', message = map_of kvs ''message''\<rparr>)
           | Inr (Some (JStr t)) \<Rightarrow> Rejected (ApiError \<lparr>code = None, message = None\<rparr>)
           | Inr (Some (JArr t)) \<Rightarrow> Rejected (ApiError \<lparr>code = None, message = None\<rparr>)
           | Inr (Some (JNum t)) \<Rightarrow> Rejected (ApiError \<lparr>code = None, message = None\<rparr>)
           | Inr (Some (JBool t)) \<Rightarrow> Rejected (ApiError \<lparr>code = None, message = None\<rparr>)
           | _ \<Rightarrow> Resolved data))"

text \<open>The request of the example of the specification.\<close>

definition msg7 :: msg where
  "msg7 = \<lparr>m_jsonrpc = None, m_method = Some ''Component.GetControls'', m_id = Some 7,
            m_params = None\<rparr>"

text \<open>
  The calls of \<open>send\<close> that the client still holds: those with a listener or a timer,
  those that await a connection, and those whose continuation is queued.
\<close>

definition tracked :: "state \<Rightarrow> pending set" where
  "tracked s =
     set (listeners s) \<union> set (timers s) \<union> (\<lambda>w. fst (snd w)) ` set (waiting s) \<union>
     {p. \<exists>m j. Send_resume p m j \<in> set (microtasks s)} \<union>
     {p. \<exists>e. Send_reject p e \<in> set (microtasks s)}"

text \<open>
  A call is no outstanding Logon request of socket \<open>k\<close>: its promise is not consumed by
  the Logon handlers of \<open>k\<close>, or it is settled already.
\<close>

definition logon_settled :: "sock \<Rightarrow> state \<Rightarrow> pending \<Rightarrow> bool" where
  "logon_settled k s p = (p_logon p = Some k \<longrightarrow> p_call p \<in> fst ` set (settled s))"

text \<open>
  Socket \<open>k\<close> has not become the connection and no Logon request can still make it so:
  \<open>k\<close> is not the stored socket, its connection promise is not fulfilled, no \<open>then\<close>
  reaction of a Logon request of \<open>k\<close> is queued, and no call that the client holds is an
  outstanding Logon request of \<open>k\<close>.
\<close>

definition not_ready :: "sock \<Rightarrow> state \<Rightarrow> bool" where
  "not_ready k s =
     (socket s \<noteq> Some k \<and> (k, Conn_resolved) \<notin> set (conn_settled s) \<and>
      (\<forall>d. Logon_then k d \<notin> set (microtasks s)) \<and>
      (\<forall>p \<in> tracked s. logon_settled k s p))"



text \<open>
  The calls of \<open>send\<close> that have, or will have, a listener: those whose listener is
  registered, those that await a connection, and those whose continuation with a socket is
  queued.  In a state reached from the initial one they are pairwise distinct and below
  the next call (lemma \<open>reachable_calls_distinct\<close>).
\<close>

fun resumes :: "task list \<Rightarrow> pending list" where
  "resumes [] = []"
| "resumes (Send_resume p m k # ts) = p # resumes ts"
| "resumes (t # ts) = resumes ts"

definition held_calls :: "state \<Rightarrow> nat list" where
  "held_calls s =
     map p_call (listeners s) @ map (\<lambda>w. p_call (fst (snd w))) (waiting s) @
     map p_call (resumes (microtasks s))"

definition calls_distinct :: "state \<Rightarrow> bool" where
  "calls_distinct s = (distinct (held_calls s) \<and> (\<forall>c \<in> set (held_calls s). c < next_call s))"

text \<open>
  The calls of \<open>send\<close> whose continuation is in the microtask queue, to go on with a
  socket or to return the rejection of the connection attempt.
\<close>

fun queued :: "task list \<Rightarrow> pending list" where
  "queued [] = []"
| "queued (Send_resume p m k # ts) = p # queued ts"
| "queued (Send_reject p e # ts) = p # queued ts"
| "queued (t # ts) = queued ts"

text \<open>
  A call of \<open>send\<close> that was made and that nothing can settle any more: its promise is
  not settled, its listener and its timer are gone, and it neither awaits a connection
  nor has a continuation in the queue.
\<close>

definition abandoned :: "nat \<Rightarrow> state \<Rightarrow> bool" where
  "abandoned c s =
     (c < next_call s \<and> c \<notin> fst ` set (settled s) \<and>
      c \<notin> p_call ` set (listeners s) \<and> c \<notin> p_call ` set (timers s) \<and>
      c \<notin> (\<lambda>w. p_call (fst (snd w))) ` set (waiting s) \<and>
      c \<notin> p_call ` set (queued (microtasks s)))"

section \<open>Decoding: chunks and frames\<close>

subsection \<open>The loop over a chunk\<close>

lemma receive_loop_no_NUL:
  "NUL \<notin> set f \<Longrightarrow> receive_loop parse cfg (f @ bs) rx s = receive_loop parse cfg bs (rx @ f) s"
  by (induction f arbitrary: rx) auto

lemma receive_loop_frame:
  assumes "NUL \<notin> set f" and "fst (process_frame parse cfg f s) = None"
  shows "receive_loop parse cfg (f @ NUL # bs) [] s =
         receive_loop parse cfg bs [] (snd (process_frame parse cfg f s))"
proof -
  obtain x s' where ps: "process_frame parse cfg f s = (x, s')" by (cases "process_frame parse cfg f s")
  with assms(2) have "x = None" by simp
  with ps assms(1) show ?thesis by (simp add: receive_loop_no_NUL)
qed

lemma receive_loop_stream:
  assumes "\<forall>f \<in> set fs. NUL \<notin> set f \<and> (\<forall>s. fst (process_frame parse cfg f s) = None)"
  shows "receive_loop parse cfg (frame_stream fs @ bs) [] s =
         receive_loop parse cfg bs [] (receive_loop parse cfg (frame_stream fs) [] s)"
  using assms
proof (induction fs arbitrary: s)
  case Nil
  show ?case by (simp add: frame_stream_def)
next
  case (Cons f fs)
  have f: "NUL \<notin> set f" "fst (process_frame parse cfg f s) = None" using Cons.prems by auto
  have rest: "\<forall>f \<in> set fs. NUL \<notin> set f \<and> (\<forall>s. fst (process_frame parse cfg f s) = None)"
    using Cons.prems by simp
  have "receive_loop parse cfg (frame_stream (f # fs) @ bs) [] s =
        receive_loop parse cfg (frame_stream fs @ bs) [] (snd (process_frame parse cfg f s))"
    using receive_loop_frame [OF f, of "frame_stream fs @ bs"] by (simp add: frame_stream_def)
  also have "\<dots> = receive_loop parse cfg bs []
        (receive_loop parse cfg (frame_stream fs) [] (snd (process_frame parse cfg f s)))"
    by (rule Cons.IH [OF rest])
  also have "receive_loop parse cfg (frame_stream fs) [] (snd (process_frame parse cfg f s)) =
        receive_loop parse cfg (frame_stream (f # fs)) [] s"
    using receive_loop_frame [OF f, of "frame_stream fs"] by (simp add: frame_stream_def)
  finally show ?case .
qed

lemma frame_stream_append: "frame_stream (fs @ gs) = frame_stream fs @ frame_stream gs"
  by (simp add: frame_stream_def)

subsection \<open>Frames that are processed without an exception\<close>

lemma get_prop_Some_Inl: "get_prop (Some v) key = Inl x \<Longrightarrow> v = JNull"
  by (cases v) auto

lemma get_prop_object: "has_method obj = Inr hm \<Longrightarrow> \<exists>i. get_prop (Some obj) key = Inr i"
  by (cases obj) auto

lemma listener_no_throw:
  assumes "get_prop (Some obj) ''id'' = Inr i"
    and "get_prop (Some obj) ''error'' = Inr e" and "e \<noteq> Some JNull"
  shows "fst (listener cfg p obj s) = None"
proof (cases e)
  case None
  with assms show ?thesis
    by (simp add: listener_def Let_def split: revision.splits)
next
  case (Some v)
  with assms(3) have "v \<noteq> JNull" by simp
  then obtain c t where "get_prop (Some v) ''code'' = Inr c" "get_prop (Some v) ''message'' = Inr t"
    by (cases v) auto
  with Some assms show ?thesis
    by (simp add: listener_def Let_def split: revision.splits)
qed

lemma run_listeners_no_throw:
  assumes "get_prop (Some obj) ''id'' = Inr i"
    and "get_prop (Some obj) ''error'' = Inr e" and "e \<noteq> Some JNull"
  shows "fst (run_listeners cfg ps obj s) = None"
proof (induction ps arbitrary: s)
  case Nil
  show ?case by simp
next
  case (Cons p ps)
  obtain x s' where l: "listener cfg p obj s = (x, s')" by (cases "listener cfg p obj s")
  with listener_no_throw [OF assms, of cfg p s] have "x = None" by simp
  with l Cons.IH [of s'] show ?case by simp
qed

lemma process_frame_no_throw:
  assumes "parse f = Some obj" and "has_method obj = Inr False"
    and "get_prop (Some obj) ''error'' = Inr e" and "e \<noteq> Some JNull"
  shows "fst (process_frame parse cfg f s) = None"
proof -
  obtain i where "get_prop (Some obj) ''id'' = Inr i"
    using get_prop_object [OF assms(2)] by blast
  then have "fst (run_listeners cfg (listeners s) obj (emit (Emit_package obj) s)) = None"
    using assms(3,4) by (rule run_listeners_no_throw)
  with assms(1,2) show ?thesis
    by (simp add: process_frame_def emit_package_def emit_def)
qed

lemma parse_id1: \<open>json_parse ''{"id":1}'' = Some (JObj [(''id'', JNum 1)])\<close>
  by code_simp

lemma parse_id2: \<open>json_parse ''{"id":2}'' = Some (JObj [(''id'', JNum 2)])\<close>
  by code_simp

subsection \<open>Claim C1\<close>

text \<open>
  C1 says that every partition of a valid frame stream into chunks makes \<open>receive\<close> emit
  the objects that the whole stream makes it emit, so that a frame whose bytes span two
  reads is reassembled.  The array \<open>rx\<close> is local to one call of \<open>receive\<close>: the bytes
  that follow the last zero byte of a chunk are dropped when the call returns.  The stream
  of the single frame \<open>{"id":1}\<close>, fed whole, emits the object; fed as the two chunks
  \<open>{"id"\<close> and \<open>:1}\<close> with the zero byte, it emits nothing and logs the
  \<open>SyntaxError\<close> of \<open>:1}\<close>.
\<close>

theorem C1_counterexample:
  \<open>concat [''{"id"'', '':1}'' @ [NUL]] = frame_stream [''{"id":1}''] \<and>
   packages (log (receive json_parse cfg0 (frame_stream [''{"id":1}'']) init_state)) =
     [JObj [(''id'', JNum 1)]] \<and>
   packages (log (receive_chunks json_parse cfg0 [''{"id"'', '':1}'' @ [NUL]] init_state)) = [] \<and>
   log (receive_chunks json_parse cfg0 [''{"id"'', '':1}'' @ [NUL]] init_state) =
     [Node_error SyntaxError]\<close>
  by code_simp

text \<open>
  C1 as amended: when every frame of the stream is processed without an exception and
  every chunk is a run of whole frames (it ends with a zero byte), feeding the chunks one
  at a time ends in the state that feeding the whole stream ends in; the log, and with it
  the sequence of emitted objects, is the same.
\<close>

theorem C1_chunks_at_frame_boundaries:
  assumes "\<forall>f \<in> set (concat groups). NUL \<notin> set f \<and> (\<forall>s. fst (process_frame parse cfg f s) = None)"
  shows "receive_chunks parse cfg (map frame_stream groups) s =
         receive parse cfg (frame_stream (concat groups)) s"
  using assms
proof (induction groups arbitrary: s)
  case Nil
  show ?case by (simp add: receive_def frame_stream_def)
next
  case (Cons g gs)
  have g: "\<forall>f \<in> set g. NUL \<notin> set f \<and> (\<forall>s. fst (process_frame parse cfg f s) = None)"
    using Cons.prems by simp
  have gs: "\<forall>f \<in> set (concat gs). NUL \<notin> set f \<and> (\<forall>s. fst (process_frame parse cfg f s) = None)"
    using Cons.prems by simp
  have "receive_chunks parse cfg (map frame_stream (g # gs)) s =
        receive parse cfg (frame_stream (concat gs)) (receive parse cfg (frame_stream g) s)"
    using Cons.IH [OF gs] by simp
  also have "\<dots> = receive parse cfg (frame_stream (concat (g # gs))) s"
    using receive_loop_stream [OF g, of "frame_stream (concat gs)" s]
    by (simp add: receive_def frame_stream_append)
  finally show ?case .
qed

theorem C1_witness:
  \<open>NUL \<notin> set ''{"id":1}'' \<and> NUL \<notin> set ''{"id":2}'' \<and>
   (\<forall>s. fst (process_frame json_parse cfg0 ''{"id":1}'' s) = None) \<and>
   (\<forall>s. fst (process_frame json_parse cfg0 ''{"id":2}'' s) = None) \<and>
   receive_chunks json_parse cfg0 (map frame_stream [[''{"id":1}''], [''{"id":2}'']]) init_state =
   receive json_parse cfg0 (frame_stream (concat [[''{"id":1}''], [''{"id":2}'']])) init_state\<close>
proof -
  have n: \<open>NUL \<notin> set ''{"id":1}''\<close> \<open>NUL \<notin> set ''{"id":2}''\<close>
    by (simp_all add: NUL_def)
  have p1: \<open>fst (process_frame json_parse cfg0 ''{"id":1}'' s) = None\<close> for s
    using parse_id1 by (rule process_frame_no_throw [where parse = json_parse and e = None]) simp_all
  have p2: \<open>fst (process_frame json_parse cfg0 ''{"id":2}'' s) = None\<close> for s
    using parse_id2 by (rule process_frame_no_throw [where parse = json_parse and e = None]) simp_all
  have \<open>\<forall>f \<in> set (concat [[''{"id":1}''], [''{"id":2}'']]).
          NUL \<notin> set f \<and> (\<forall>s. fst (process_frame json_parse cfg0 f s) = None)\<close>
    using n p1 p2 by simp
  from C1_chunks_at_frame_boundaries [OF this, of init_state] n p1 p2
  show ?thesis by blast
qed

subsection \<open>Claim C2\<close>

text \<open>
  C2 says that a frame that fails to parse is reported alone and that the well-formed
  frames after it are decoded unchanged.  \<open>rx = []\<close> is the last statement of the
  \<open>try\<close>, so the \<open>catch\<close> leaves the bytes of the bad frame in \<open>rx\<close>, and the next frame
  of the chunk is parsed with those bytes before it.  For the chunk of the frames \<open>x\<close>
  and \<open>{"id":1}\<close> the client logs two errors and emits nothing, whereas the second
  frame alone is emitted.
\<close>

theorem C2_bad_frame_stays_in_buffer:
  \<open>json_parse ''x'' = None \<and>
   json_parse ''{"id":1}'' = Some (JObj [(''id'', JNum 1)]) \<and>
   log (receive json_parse cfg0 (''{"id":1}'' @ [NUL]) init_state) =
     [Emit_package (JObj [(''id'', JNum 1)])] \<and>
   log (receive json_parse cfg0 (''x'' @ [NUL] @ ''{"id":1}'' @ [NUL]) init_state) =
     [Node_error SyntaxError, Node_error SyntaxError]\<close>
  by code_simp

section \<open>What the operations leave unchanged\<close>

lemma connection_part_settle [simp]: "connection_part (settle p out s) = connection_part s"
  by (simp add: connection_part_def settle_def)

lemma settle_log [simp]: "log (settle p out s) = log s"
  by (simp add: settle_def)

lemma settle_destroyed [simp]: "destroyed (settle p out s) = destroyed s"
  by (simp add: settle_def)

lemma settle_listeners [simp]: "listeners (settle p out s) = listeners s"
  by (simp add: settle_def)

lemma settle_timers [simp]: "timers (settle p out s) = timers s"
  by (simp add: settle_def)

lemma listener_frame:
  "connection_part (snd (listener cfg p data s)) = connection_part s \<and>
   log (snd (listener cfg p data s)) = log s \<and>
   destroyed (snd (listener cfg p data s)) = destroyed s"
  by (simp add: listener_def Let_def connection_part_def settle_def
      split: sum.splits option.splits revision.splits)

lemma run_listeners_frame:
  "connection_part (snd (run_listeners cfg ps data s)) = connection_part s \<and>
   log (snd (run_listeners cfg ps data s)) = log s \<and>
   destroyed (snd (run_listeners cfg ps data s)) = destroyed s"
proof (induction ps arbitrary: s)
  case Nil
  show ?case by simp
next
  case (Cons p ps)
  obtain x s' where l: "listener cfg p data s = (x, s')" by (cases "listener cfg p data s")
  with listener_frame [of cfg p data s]
  have s': "connection_part s' = connection_part s" "log s' = log s" "destroyed s' = destroyed s"
    by simp_all
  show ?case
  proof (cases x)
    case None
    with l s' Cons.IH [of s'] show ?thesis by simp
  next
    case (Some e)
    with l s' show ?thesis by simp
  qed
qed

lemma emit_package_frame:
  "connection_part (snd (emit_package cfg obj s)) = connection_part s \<and>
   log (snd (emit_package cfg obj s)) = log s @ [Emit_package obj] \<and>
   destroyed (snd (emit_package cfg obj s)) = destroyed s"
  using run_listeners_frame [of cfg "listeners s" obj "emit (Emit_package obj) s"]
  by (simp add: emit_package_def emit_def connection_part_def)

lemma closeSocket_fields [simp]:
  "socket (closeSocket k s) = socket s"
  "connectionPromise (closeSocket k s) = connectionPromise s"
  "opened (closeSocket k s) = opened s"
  "conn_settled (closeSocket k s) = conn_settled s"
  "waiting (closeSocket k s) = waiting s"
  "statusCallbacks (closeSocket k s) = statusCallbacks s"
  "lastId (closeSocket k s) = lastId s"
  "next_call (closeSocket k s) = next_call s"
  "noOpIntervalId (closeSocket k s) = noOpIntervalId s"
  "interval_running (closeSocket k s) = interval_running s"
  "log (closeSocket k s) = log s"
  "listeners (closeSocket k s) = listeners s"
  "timers (closeSocket k s) = timers s"
  "settled (closeSocket k s) = settled s"
  "microtasks (closeSocket k s) = microtasks s"
  by (cases k; simp)+

lemma closeSocket_destroyed:
  "destroyed (closeSocket k s) = (case k of None \<Rightarrow> destroyed s | Some j \<Rightarrow> insert j (destroyed s))"
  by (cases k) simp_all

lemma dispatch_frame:
  "connection_part (snd (dispatch obj s)) = connection_part s \<and>
   listeners (snd (dispatch obj s)) = listeners s \<and>
   timers (snd (dispatch obj s)) = timers s \<and>
   settled (snd (dispatch obj s)) = settled s \<and>
   microtasks (snd (dispatch obj s)) = microtasks s"
  by (simp add: dispatch_def engine_status_def change_group_poll_def emit_def connection_part_def
      split: sum.splits)

lemma process_frame_connection_part:
  "connection_part (snd (process_frame parse cfg rx s)) = connection_part s"
proof -
  have "connection_part (snd (emit_package cfg obj (snd (dispatch obj s)))) = connection_part s" for obj
    using emit_package_frame [of cfg obj "snd (dispatch obj s)"] dispatch_frame [of obj s] by simp
  moreover have "connection_part (snd (emit_package cfg obj s)) = connection_part s" for obj
    using emit_package_frame [of cfg obj s] by simp
  ultimately show ?thesis
    by (auto simp add: process_frame_def split: option.splits sum.splits prod.splits)
      (metis dispatch_frame snd_conv)+
qed

lemma receive_loop_connection_part:
  "connection_part (receive_loop parse cfg data rx s) = connection_part s"
proof (induction data arbitrary: rx s)
  case Nil
  show ?case by simp
next
  case (Cons b bs)
  obtain x s' where p: "process_frame parse cfg rx s = (x, s')"
    by (cases "process_frame parse cfg rx s")
  with process_frame_connection_part [of parse cfg rx s]
  have s': "connection_part s' = connection_part s" by simp
  have e: "connection_part (emit y s') = connection_part s" for y
    using s' by (simp add: emit_def connection_part_def)
  show ?case
  proof (cases "b = NUL")
    case True
    with p s' e Cons.IH show ?thesis by (cases x) simp_all
  next
    case False
    with Cons.IH show ?thesis by simp
  qed
qed

lemma receive_connection_part:
  "connection_part (receive parse cfg data s) = connection_part s"
  by (simp add: receive_def receive_loop_connection_part)

lemma drain_invariant:
  assumes "I s"
    and "\<And>s t ts. I s \<Longrightarrow> microtasks s = t # ts \<Longrightarrow> I (run_task cfg t (s\<lparr>microtasks := ts\<rparr>))"
  shows "I (drain cfg s)"
  using assms
proof (induction cfg s rule: drain.induct)
  case (1 cfg s)
  show ?case
  proof (cases "microtasks s")
    case Nil
    with "1.prems"(1) show ?thesis by (simp add: drain_Nil)
  next
    case (Cons t ts)
    have "I (run_task cfg t (s\<lparr>microtasks := ts\<rparr>))"
      using "1.prems"(1) Cons by (rule "1.prems"(2))
    then have "I (drain cfg (run_task cfg t (s\<lparr>microtasks := ts\<rparr>)))"
      using "1.prems"(2) by (rule "1.IH" [OF Cons])
    with Cons show ?thesis by (simp add: drain_Cons)
  qed
qed

lemma settle_fields [simp]:
  "socket (settle p out s) = socket s"
  "connectionPromise (settle p out s) = connectionPromise s"
  "opened (settle p out s) = opened s"
  "conn_settled (settle p out s) = conn_settled s"
  "waiting (settle p out s) = waiting s"
  "statusCallbacks (settle p out s) = statusCallbacks s"
  by (simp_all add: settle_def)

lemma settle_conn_fields [simp]:
  "socket (settle_conn k out s) = socket s"
  "connectionPromise (settle_conn k out s) = connectionPromise s"
  "opened (settle_conn k out s) = opened s"
  "destroyed (settle_conn k out s) = destroyed s"
  "listeners (settle_conn k out s) = listeners s"
  "timers (settle_conn k out s) = timers s"
  "settled (settle_conn k out s) = settled s"
  "log (settle_conn k out s) = log s"
  "statusCallbacks (settle_conn k out s) = statusCallbacks s"
  by (simp_all add: settle_conn_def)

lemma updateStatus_fields [simp]:
  "socket (updateStatus st e s) = socket s"
  "connectionPromise (updateStatus st e s) = connectionPromise s"
  "opened (updateStatus st e s) = opened s"
  "destroyed (updateStatus st e s) = destroyed s"
  "listeners (updateStatus st e s) = listeners s"
  "timers (updateStatus st e s) = timers s"
  "settled (updateStatus st e s) = settled s"
  "conn_settled (updateStatus st e s) = conn_settled s"
  "waiting (updateStatus st e s) = waiting s"
  "microtasks (updateStatus st e s) = microtasks s"
  "statusCallbacks (updateStatus st e s) = statusCallbacks s"
  by (simp_all add: updateStatus_def)

lemma handleReject_fields [simp]:
  "socket (handleReject k e s) = socket s"
  "connectionPromise (handleReject k e s) = None"
  "opened (handleReject k e s) = opened s"
  "destroyed (handleReject k e s) = destroyed s"
  "listeners (handleReject k e s) = listeners s"
  "timers (handleReject k e s) = timers s"
  "settled (handleReject k e s) = settled s"
  "statusCallbacks (handleReject k e s) = statusCallbacks s"
  by (simp_all add: handleReject_def)

lemma handleResolve_fields [simp]:
  "socket (handleResolve k s) = Some k"
  "connectionPromise (handleResolve k s) = None"
  "opened (handleResolve k s) = opened s"
  "listeners (handleResolve k s) = listeners s"
  "timers (handleResolve k s) = timers s"
  "settled (handleResolve k s) = settled s"
  "statusCallbacks (handleResolve k s) = statusCallbacks s"
  by (simp_all add: handleResolve_def)

lemma logon_then_fields [simp]:
  "opened (logon_then cfg k r s) = opened s"
  "listeners (logon_then cfg k r s) = listeners s"
  "timers (logon_then cfg k r s) = timers s"
  "settled (logon_then cfg k r s) = settled s"
  "statusCallbacks (logon_then cfg k r s) = statusCallbacks s"
  by (simp_all add: logon_then_def split: sum.splits option.splits revision.splits)

lemma logon_then_socket: "socket s \<noteq> None \<Longrightarrow> socket (logon_then cfg k r s) \<noteq> None"
  by (simp add: logon_then_def split: sum.splits option.splits revision.splits)

lemma transmit_fields [simp]:
  "socket (transmit p m k s) = socket s"
  "connectionPromise (transmit p m k s) = connectionPromise s"
  "opened (transmit p m k s) = opened s"
  "destroyed (transmit p m k s) = destroyed s"
  "settled (transmit p m k s) = settled s"
  "conn_settled (transmit p m k s) = conn_settled s"
  "waiting (transmit p m k s) = waiting s"
  "microtasks (transmit p m k s) = microtasks s"
  "statusCallbacks (transmit p m k s) = statusCallbacks s"
  by (simp_all add: transmit_def)

lemma run_task_opened [simp]: "opened (run_task cfg t s) = opened s"
  by (cases t) simp_all

lemma run_task_statusCallbacks [simp]: "statusCallbacks (run_task cfg t s) = statusCallbacks s"
  by (cases t) simp_all

lemma run_task_socket: "socket s \<noteq> None \<Longrightarrow> socket (run_task cfg t s) \<noteq> None"
  by (cases t) (simp_all add: logon_then_socket)

lemma drain_opened [simp]: "opened (drain cfg s) = opened s"
  by (rule drain_invariant [where I = "\<lambda>s'. opened s' = opened s"]) simp_all

lemma drain_socket: "socket s \<noteq> None \<Longrightarrow> socket (drain cfg s) \<noteq> None"
  by (rule drain_invariant [where I = "\<lambda>s'. socket s' \<noteq> None"]) (simp_all add: run_task_socket)

section \<open>Requests: timeout and teardown\<close>

lemma on_timer_listeners: "listeners (on_timer cfg c s) = listeners s"
  by (simp add: on_timer_def split: list.splits)

subsection \<open>Claim C3\<close>

text \<open>
  C3 says that a call of \<open>send\<close> whose response never arrives fails after 10 seconds with
  an error that names the deadline and the device, and that its listener is removed, so a
  later response with the same id finds no stale entry.  The callback of the timer only
  rejects; \<open>removeListener\<close> is called on the path of a matching response alone.  A
  request with id 5 is sent, the connection is made and the timer fires: the promise is
  rejected with the text of the error, the timer is gone, and the listener is still
  registered; the response with id 5 that arrives afterwards finds it, and only then is it
  removed.
\<close>

theorem C3_timeout_keeps_listener:
  \<open>settled (run json_parse cfg0 [Ev_send msg5, Ev_connect 0, Ev_timer 0] init_state) =
     [(0, Rejected (Error ''Q-SYS device "core" did not respond within 10 seconds.''))] \<and>
   timers (run json_parse cfg0 [Ev_send msg5, Ev_connect 0, Ev_timer 0] init_state) = [] \<and>
   listeners (run json_parse cfg0 [Ev_send msg5, Ev_connect 0, Ev_timer 0] init_state) =
     [\<lparr>p_call = 0, p_id = 5, p_logon = None\<rparr>] \<and>
   listeners (run json_parse cfg0
       [Ev_send msg5, Ev_connect 0, Ev_timer 0, Ev_data 0 (''{"id":5}'' @ [NUL])] init_state) = []\<close>
  by code_simp

subsection \<open>Claim C4\<close>

text \<open>
  C4 says that on teardown every pending request is failed at once with a
  connection-closed error and its timer is cancelled.  The handlers of \<open>close\<close>, \<open>end\<close>
  and \<open>timeout\<close> of a socket and of \<open>close\<close> of the node destroy the socket and touch
  no request; the client has no operation that rejects the pending requests.  A request is
  sent on a connection, then the socket closes: the socket is destroyed and the field
  cleared, no promise is settled, and the timer and the listener of the request remain.
\<close>

theorem C4_counterexample:
  \<open>listeners (run json_parse cfg0 [Ev_send msg5, Ev_connect 0] init_state) =
     [\<lparr>p_call = 0, p_id = 5, p_logon = None\<rparr>] \<and>
   socket (run json_parse cfg0 [Ev_send msg5, Ev_connect 0, Ev_close 0] init_state) = None \<and>
   0 \<in> destroyed (run json_parse cfg0 [Ev_send msg5, Ev_connect 0, Ev_close 0] init_state) \<and>
   settled (run json_parse cfg0 [Ev_send msg5, Ev_connect 0, Ev_close 0] init_state) = [] \<and>
   timers (run json_parse cfg0 [Ev_send msg5, Ev_connect 0, Ev_close 0] init_state) =
     [\<lparr>p_call = 0, p_id = 5, p_logon = None\<rparr>] \<and>
   listeners (run json_parse cfg0 [Ev_send msg5, Ev_connect 0, Ev_close 0] init_state) =
     [\<lparr>p_call = 0, p_id = 5, p_logon = None\<rparr>]\<close>
  by code_simp

lemma on_teardown_fields:
  "listeners (on_teardown text k s) = listeners s"
  "timers (on_teardown text k s) = timers s"
  "settled (on_teardown text k s) = settled s"
  "microtasks (on_teardown text k s) = microtasks s"
  "destroyed (on_teardown text k s) = insert k (destroyed s)"
  "socket (on_teardown text k s) = (if socket s = Some k then None else socket s)"
  by (simp_all add: on_teardown_def emit_def Let_def)

text \<open>
  C4 as amended: on the \<open>close\<close>, \<open>end\<close> or \<open>timeout\<close> event of a socket, and on the
  \<open>close\<close> event of the node, the socket is destroyed, the stored socket is cleared when
  it is that socket (the node's \<open>close\<close> clears nothing), and the pending requests are
  left as they are: no promise is settled, no timer is cancelled, no listener is removed.
  Each request stays pending until its response arrives or its own timer fires.
\<close>

theorem C4_teardown_leaves_requests_pending:
  assumes "microtasks s = []" and "k < opened s"
    and "ev \<in> {Ev_close k, Ev_end k, Ev_timeout k, Ev_node_close}"
  shows "listeners (step parse cfg ev s) = listeners s \<and>
         timers (step parse cfg ev s) = timers s \<and>
         settled (step parse cfg ev s) = settled s \<and>
         k \<in> destroyed (step parse cfg ev s) \<and>
         socket (step parse cfg ev s) =
           (if ev \<noteq> Ev_node_close \<and> socket s = Some k then None else socket s)"
proof -
  have m: "microtasks (on_event parse cfg ev s) = []"
    using assms by (auto simp add: on_teardown_fields Let_def)
  have "listeners (on_event parse cfg ev s) = listeners s \<and>
        timers (on_event parse cfg ev s) = timers s \<and>
        settled (on_event parse cfg ev s) = settled s \<and>
        k \<in> destroyed (on_event parse cfg ev s) \<and>
        socket (on_event parse cfg ev s) =
          (if ev \<noteq> Ev_node_close \<and> socket s = Some k then None else socket s)"
    using assms by (auto simp add: on_teardown_fields Let_def)
  then show ?thesis
    by (simp add: step_def drain_Nil [OF m])
qed

theorem C4_witness:
  \<open>microtasks (run json_parse cfg0 [Ev_send msg5, Ev_connect 0] init_state) = [] \<and>
   0 < opened (run json_parse cfg0 [Ev_send msg5, Ev_connect 0] init_state) \<and>
   timers (step json_parse cfg0 (Ev_close 0) (run json_parse cfg0 [Ev_send msg5, Ev_connect 0] init_state)) =
     timers (run json_parse cfg0 [Ev_send msg5, Ev_connect 0] init_state) \<and>
   settled (step json_parse cfg0 (Ev_close 0) (run json_parse cfg0 [Ev_send msg5, Ev_connect 0] init_state)) =
     settled (run json_parse cfg0 [Ev_send msg5, Ev_connect 0] init_state)\<close>
proof -
  let ?s = "run json_parse cfg0 [Ev_send msg5, Ev_connect 0] init_state"
  have m: "microtasks ?s = []" by code_simp
  have k: "0 < opened ?s" by code_simp
  from C4_teardown_leaves_requests_pending [OF m k, of "Ev_close 0" json_parse cfg0] m k
  show ?thesis by simp
qed

section \<open>Connecting\<close>

lemma drain_microtasks [simp]: "microtasks (drain cfg s) = []"
proof (induction cfg s rule: drain.induct)
  case (1 cfg s)
  show ?case
  proof (cases "microtasks s")
    case Nil
    then show ?thesis by (simp add: drain_Nil)
  next
    case (Cons t ts)
    with "1.IH" [OF Cons] show ?thesis by (simp add: drain_Cons)
  qed
qed

lemma reachable_microtasks_empty: "microtasks (run parse cfg evs init_state) = []"
proof -
  have "microtasks s = [] \<Longrightarrow> microtasks (run parse cfg evs s) = []" for s
    by (induction evs arbitrary: s) (simp_all add: step_def)
  then show ?thesis by (simp add: init_state_def)
qed

lemma settle_microtasks_plain:
  "p_logon p = None \<Longrightarrow> microtasks (settle p out s) = microtasks s"
  by (simp add: settle_def)

lemma run_plain_task:
  assumes "plain_task t"
  shows "socket (run_task cfg t s) = socket s \<and>
         connectionPromise (run_task cfg t s) = connectionPromise s \<and>
         microtasks (run_task cfg t s) = microtasks s"
  using assms by (cases t) (simp_all add: settle_microtasks_plain)

lemma drain_plain:
  assumes "\<forall>t \<in> set (microtasks s). plain_task t"
  shows "socket (drain cfg s) = socket s \<and> connectionPromise (drain cfg s) = connectionPromise s"
proof -
  let ?I = "\<lambda>s'. socket s' = socket s \<and> connectionPromise s' = connectionPromise s \<and>
                  (\<forall>t \<in> set (microtasks s'). plain_task t)"
  have "?I (drain cfg s)"
  proof (rule drain_invariant [where I = ?I])
    show "?I s" using assms by simp
  next
    fix s' :: state and t ts
    assume i: "?I s'" and m: "microtasks s' = t # ts"
    then have "plain_task t" by simp
    from run_plain_task [OF this, of cfg "s'\<lparr>microtasks := ts\<rparr>"] i m
    show "?I (run_task cfg t (s'\<lparr>microtasks := ts\<rparr>))" by simp
  qed
  then show ?thesis by simp
qed

lemma send_demand:
  assumes "socket s = None" and "microtasks s = []"
  shows "socket (on_event parse cfg (Ev_send m) s) = None \<and>
         (\<forall>t \<in> set (microtasks (on_event parse cfg (Ev_send m) s)). plain_task t) \<and>
         connectionPromise (on_event parse cfg (Ev_send m) s) =
           Some (case connectionPromise s of Some k \<Rightarrow> k | None \<Rightarrow> opened s) \<and>
         opened (on_event parse cfg (Ev_send m) s) =
           (case connectionPromise s of Some k \<Rightarrow> opened s | None \<Rightarrow> Suc (opened s))"
  using assms
  by (simp add: send_def getSocket_def initSocket_def await_socket_def Let_def
      split: option.splits conn_outcome.splits)

lemma send_step:
  assumes "socket s = None" and "microtasks s = []"
  shows "socket (step parse cfg (Ev_send m) s) = None \<and>
         microtasks (step parse cfg (Ev_send m) s) = [] \<and>
         connectionPromise (step parse cfg (Ev_send m) s) =
           Some (case connectionPromise s of Some k \<Rightarrow> k | None \<Rightarrow> opened s) \<and>
         opened (step parse cfg (Ev_send m) s) =
           (case connectionPromise s of Some k \<Rightarrow> opened s | None \<Rightarrow> Suc (opened s))"
  using send_demand [OF assms, of parse cfg m]
    drain_plain [of "on_event parse cfg (Ev_send m) s" cfg]
  by (simp add: step_def)

lemma burst_attached:
  assumes "socket s = None" and "microtasks s = []" and "connectionPromise s = Some k"
  shows "opened (run parse cfg (map Ev_send ms) s) = opened s"
  using assms
proof (induction ms arbitrary: s)
  case Nil
  show ?case by simp
next
  case (Cons m ms)
  from send_step [OF Cons.prems(1,2), of parse cfg m] Cons.prems(3)
  have "socket (step parse cfg (Ev_send m) s) = None"
    "microtasks (step parse cfg (Ev_send m) s) = []"
    "connectionPromise (step parse cfg (Ev_send m) s) = Some k"
    "opened (step parse cfg (Ev_send m) s) = opened s"
    by simp_all
  with Cons.IH [of "step parse cfg (Ev_send m) s"] show ?case by simp
qed

lemma burst_at_most_one:
  assumes "socket s = None" and "microtasks s = []"
  shows "opened (run parse cfg (map Ev_send ms) s) \<le> Suc (opened s)"
proof (cases ms)
  case Nil
  then show ?thesis by simp
next
  case (Cons m ms')
  let ?s = "step parse cfg (Ev_send m) s"
  from send_step [OF assms, of parse cfg m]
  have s: "socket ?s = None" "microtasks ?s = []"
    "connectionPromise ?s = Some (case connectionPromise s of Some k \<Rightarrow> k | None \<Rightarrow> opened s)"
    "opened ?s \<le> Suc (opened s)"
    by (simp_all split: option.splits)
  from burst_attached [OF s(1,2,3), of parse cfg ms'] s(4) Cons
  show ?thesis by simp
qed

subsection \<open>Claim C5\<close>

text \<open>
  C5: while a connection attempt is in flight and no connection exists, every further
  demand for a connection awaits that attempt and opens no second socket: \<open>initSocket\<close>
  and \<open>getSocket\<close> return the stored promise and leave the state as it is, a
  \<open>send\<close> is added to the calls that await the attempt, and any burst of calls of
  \<open>send\<close> creates no socket.  From any state without a connection, a burst of calls of
  \<open>send\<close> creates at most one socket.  (The state is taken between two events, the
  microtask queue being empty; \<open>opened\<close> counts the calls of \<open>net.connect\<close>.)
\<close>

theorem C5_single_flight:
  assumes "socket s = None" and "microtasks s = []"
  shows "(connectionPromise s = Some k \<longrightarrow>
            initSocket s = (Later k, s) \<and> getSocket s = (Later k, s) \<and>
            (map_of (conn_settled s) k = None \<longrightarrow>
               map fst (waiting (on_event parse cfg (Ev_send m) s)) = map fst (waiting s) @ [k]) \<and>
            opened (run parse cfg (map Ev_send ms) s) = opened s) \<and>
         opened (run parse cfg (map Ev_send ms) s) \<le> Suc (opened s)"
proof -
  have "initSocket s = (Later k, s) \<and> getSocket s = (Later k, s)"
    if "connectionPromise s = Some k"
    using that assms(1) by (simp add: initSocket_def getSocket_def)
  moreover have "map fst (waiting (on_event parse cfg (Ev_send m) s)) = map fst (waiting s) @ [k]"
    if "connectionPromise s = Some k" and "map_of (conn_settled s) k = None"
    using that assms(1)
    by (simp add: send_def getSocket_def initSocket_def await_socket_def Let_def split: option.splits)
  moreover have "opened (run parse cfg (map Ev_send ms) s) = opened s"
    if "connectionPromise s = Some k"
    using assms that by (rule burst_attached)
  moreover have "opened (run parse cfg (map Ev_send ms) s) \<le> Suc (opened s)"
    using assms by (rule burst_at_most_one)
  ultimately show ?thesis by blast
qed

theorem C5_witness:
  \<open>socket (step json_parse cfg0 (Ev_send msg_a) init_state) = None \<and>
   microtasks (step json_parse cfg0 (Ev_send msg_a) init_state) = [] \<and>
   connectionPromise (step json_parse cfg0 (Ev_send msg_a) init_state) = Some 0 \<and>
   map_of (conn_settled (step json_parse cfg0 (Ev_send msg_a) init_state)) 0 = None \<and>
   opened (step json_parse cfg0 (Ev_send msg_a) init_state) = 1 \<and>
   getSocket (step json_parse cfg0 (Ev_send msg_a) init_state) =
     (Later 0, step json_parse cfg0 (Ev_send msg_a) init_state) \<and>
   map fst (waiting (on_event json_parse cfg0 (Ev_send msg5)
      (step json_parse cfg0 (Ev_send msg_a) init_state))) = [0, 0] \<and>
   opened (run json_parse cfg0 (map Ev_send [msg5, msg_a, msg5])
      (step json_parse cfg0 (Ev_send msg_a) init_state)) = 1\<close>
proof -
  let ?s = "step json_parse cfg0 (Ev_send msg_a) init_state"
  have h: "socket ?s = None" "microtasks ?s = []" "connectionPromise ?s = Some 0"
    "map_of (conn_settled ?s) 0 = None" "opened ?s = 1" "map fst (waiting ?s) = [0]"
    by code_simp+
  from C5_single_flight [OF h(1,2), of 0 json_parse cfg0 msg5 "[msg5, msg_a, msg5]"] h
  show ?thesis by simp
qed

section \<open>Responses\<close>

lemma settle_twice [simp]: "settle p out' (settle p out s) = settle p out s"
  by (simp add: settle_def)

lemma listener_no_match:
  "\<not> id_matches data p \<Longrightarrow> snd (listener cfg p data s) = s"
  by (simp add: listener_def id_matches_def split: sum.splits)

lemma listener_match:
  assumes "id_matches data p"
    and "revision cfg = Source_ts \<or> get_prop (Some data) ''error'' \<noteq> Inr (Some JNull)"
  shows "listener cfg p data s =
         (None, settle p (response_outcome cfg data)
            (s\<lparr>timers := filter (\<lambda>q. p_call q \<noteq> p_call p) (timers s),
               listeners := filter (\<lambda>q. p_call q \<noteq> p_call p) (listeners s)\<rparr>))"
proof (cases "revision cfg")
  case Source_ts
  with assms(1) show ?thesis
    by (simp add: listener_def id_matches_def response_outcome_def Let_def)
next
  case Dist_js
  with assms(2) have ne: "get_prop (Some data) ''error'' \<noteq> Inr (Some JNull)" by simp
  from assms(1) obtain kvs xs where "data = JObj kvs \<or> data = JArr xs"
    by (cases data) (auto simp add: id_matches_def)
  then obtain e where e: "get_prop (Some data) ''error'' = Inr e" by auto
  show ?thesis
  proof (cases e)
    case None
    with assms(1) e show ?thesis
      by (simp add: listener_def id_matches_def response_outcome_def Let_def split: revision.splits)
  next
    case (Some v)
    with ne e have "v \<noteq> JNull" by simp
    with Some assms(1) e show ?thesis
      by (cases v)
        (simp_all add: listener_def id_matches_def response_outcome_def Let_def
          split: revision.splits)
  qed
qed


lemma listener_no_match_None:
  "get_prop (Some data) ''id'' = Inr i \<Longrightarrow> \<not> id_matches data p \<Longrightarrow>
   listener cfg p data s = (None, s)"
  by (simp add: listener_def id_matches_def)

lemma settle_calls:
  "fst ` set (settled (settle p out s)) = insert (p_call p) (fst ` set (settled s))"
  by (auto simp add: settle_def)

lemma settle_length: "length (settled (settle p out s)) \<le> Suc (length (settled s))"
  by (simp add: settle_def)

lemma run_listeners_effect:
  assumes "get_prop (Some data) ''id'' = Inr i"
    and "revision cfg = Source_ts \<or> get_prop (Some data) ''error'' \<noteq> Inr (Some JNull)"
  shows "fst (run_listeners cfg ps data s) = None \<and>
    listeners (snd (run_listeners cfg ps data s)) =
      filter (\<lambda>q. p_call q \<notin> p_call ` {p \<in> set ps. id_matches data p}) (listeners s) \<and>
    timers (snd (run_listeners cfg ps data s)) =
      filter (\<lambda>q. p_call q \<notin> p_call ` {p \<in> set ps. id_matches data p}) (timers s) \<and>
    fst ` set (settled (snd (run_listeners cfg ps data s))) =
      fst ` set (settled s) \<union> p_call ` {p \<in> set ps. id_matches data p} \<and>
    length (settled (snd (run_listeners cfg ps data s))) \<le>
      length (settled s) + length (filter (id_matches data) ps)"
proof (induction ps arbitrary: s)
  case Nil
  show ?case by simp
next
  case (Cons p ps)
  let ?M = "p_call ` {q \<in> set ps. id_matches data q}"
  show ?case
  proof (cases "id_matches data p")
    case False
    then have "p_call ` {q \<in> set (p # ps). id_matches data q} = ?M" by auto
    with False listener_no_match_None [OF assms(1) False, of cfg s] Cons.IH [of s]
    show ?thesis by simp
  next
    case True
    let ?s1 = "s\<lparr>timers := filter (\<lambda>q. p_call q \<noteq> p_call p) (timers s),
                  listeners := filter (\<lambda>q. p_call q \<noteq> p_call p) (listeners s)\<rparr>"
    let ?s2 = "settle p (response_outcome cfg data) ?s1"
    have l: "listener cfg p data s = (None, ?s2)"
      using True assms(2) by (rule listener_match)
    have M: "p_call ` {q \<in> set (p # ps). id_matches data q} = insert (p_call p) ?M"
      using True by auto
    have f: "filter (\<lambda>q. p_call q \<notin> ?M) (filter (\<lambda>q. p_call q \<noteq> p_call p) xs) =
             filter (\<lambda>q. p_call q \<notin> insert (p_call p) ?M) xs" for xs :: "pending list"
      by (induction xs) auto
    have len: "length (settled ?s2) \<le> Suc (length (settled s))"
      using settle_length [of p "response_outcome cfg data" ?s1] by simp
    have calls: "fst ` set (settled ?s2) = insert (p_call p) (fst ` set (settled s))"
      using settle_calls [of p "response_outcome cfg data" ?s1] by simp
    from Cons.IH [of ?s2] l M f len calls True
    show ?thesis by (simp add: settle_def) 
  qed
qed


lemma settle_map_of:
  "map_of (settled (settle p out s)) c =
     (case map_of (settled s) c of
        Some out' \<Rightarrow> Some out'
      | None \<Rightarrow> if c = p_call p then Some out else None)"
proof (cases "p_call p \<in> fst ` set (settled s)")
  case True
  then have "map_of (settled s) (p_call p) \<noteq> None" by (simp add: map_of_eq_None_iff)
  with True show ?thesis by (auto simp add: settle_def split: option.splits)
next
  case False
  then show ?thesis
    by (simp add: settle_def map_add_def split: option.splits)
qed

lemma run_listeners_outcome:
  assumes "get_prop (Some data) ''id'' = Inr i"
    and "revision cfg = Source_ts \<or> get_prop (Some data) ''error'' \<noteq> Inr (Some JNull)"
  shows "map_of (settled (snd (run_listeners cfg ps data s))) c =
     (case map_of (settled s) c of
        Some out \<Rightarrow> Some out
      | None \<Rightarrow>
          if c \<in> p_call ` {p \<in> set ps. id_matches data p}
          then Some (response_outcome cfg data) else None)"
proof (induction ps arbitrary: s)
  case Nil
  show ?case by (simp split: option.splits)
next
  case (Cons p ps)
  show ?case
  proof (cases "id_matches data p")
    case False
    then have "p_call ` {q \<in> set (p # ps). id_matches data q} =
               p_call ` {q \<in> set ps. id_matches data q}" by auto
    with False listener_no_match_None [OF assms(1) False, of cfg s] Cons.IH [of s]
    show ?thesis by simp
  next
    case True
    let ?s1 = "s\<lparr>timers := filter (\<lambda>q. p_call q \<noteq> p_call p) (timers s),
                  listeners := filter (\<lambda>q. p_call q \<noteq> p_call p) (listeners s)\<rparr>"
    let ?s2 = "settle p (response_outcome cfg data) ?s1"
    have l: "listener cfg p data s = (None, ?s2)"
      using True assms(2) by (rule listener_match)
    have M: "p_call ` {q \<in> set (p # ps). id_matches data q} =
             insert (p_call p) (p_call ` {q \<in> set ps. id_matches data q})"
      using True by auto
    have m: "map_of (settled ?s2) c =
       (case map_of (settled s) c of
          Some out' \<Rightarrow> Some out'
        | None \<Rightarrow> if c = p_call p then Some (response_outcome cfg data) else None)"
      using settle_map_of [of p "response_outcome cfg data" ?s1 c] by simp
    from Cons.IH [of ?s2] l M m show ?thesis
      by (simp split: option.splits)
  qed
qed

lemma run_listeners_none_match:
  assumes "get_prop (Some data) ''id'' = Inr i" and "\<forall>p \<in> set ps. \<not> id_matches data p"
  shows "run_listeners cfg ps data s = (None, s)"
  using assms(2)
proof (induction ps)
  case Nil
  show ?case by simp
next
  case (Cons p ps)
  then have "\<not> id_matches data p" by simp
  from listener_no_match_None [OF assms(1) this, of cfg s] Cons show ?case by simp
qed

lemma distinct_ids_one_match:
  "distinct (map p_id ps) \<Longrightarrow> length (filter (id_matches data) ps) \<le> 1"
proof (induction ps)
  case Nil
  show ?case by simp
next
  case (Cons p ps)
  show ?case
  proof (cases "id_matches data p")
    case False
    with Cons show ?thesis by simp
  next
    case True
    have "\<not> id_matches data q" if "q \<in> set ps" for q
    proof
      assume "id_matches data q"
      with True have "p_id q = p_id p" by (simp add: id_matches_def)
      with that Cons.prems show False by (auto simp add: image_iff)
    qed
    then have "filter (id_matches data) ps = []" by (simp add: filter_empty_conv)
    with True show ?thesis by simp
  qed
qed

subsection \<open>The listeners belong to distinct calls\<close>

lemma resumes_append [simp]: "resumes (ts @ us) = resumes ts @ resumes us"
  by (induction ts rule: resumes.induct) simp_all

lemma held_calls_settle [simp]: "held_calls (settle p out s) = held_calls s"
  by (cases out; cases "p_logon p") (simp_all add: held_calls_def settle_def)

lemma calls_distinct_settle [simp]: "calls_distinct (settle p out s) = calls_distinct s"
  by (simp add: calls_distinct_def) (simp add: settle_def)

lemma resumes_resolved:
  "resumes (map (\<lambda>w. Send_resume (fst (snd w)) (snd (snd w)) k) ws) = map (\<lambda>w. fst (snd w)) ws"
  by (induction ws) simp_all

lemma resumes_rejected:
  "resumes (map (\<lambda>w. Send_reject (fst (snd w)) e) ws) = []"
  by (induction ws) simp_all

lemma distinct_partition:
  assumes "distinct (map f ws)"
  shows "distinct (map f (filter P ws) @ map f (filter (\<lambda>w. \<not> P w) ws))"
  using assms
proof (induction ws)
  case Nil
  show ?case by simp
next
  case (Cons w ws)
  then show ?case by (auto simp add: image_iff)
qed

lemma set_partition:
  "set (map f (filter P ws)) \<union> set (map f (filter (\<lambda>w. \<not> P w) ws)) = set (map f ws)"
  by auto

lemma calls_distinct_settle_conn:
  assumes "calls_distinct s"
  shows "calls_distinct (settle_conn j out s)"
proof (cases "j \<in> fst ` set (conn_settled s)")
  case True
  with assms show ?thesis by (simp add: settle_conn_def)
next
  case False
  let ?L = "map p_call (listeners s)"
  let ?f = "\<lambda>w. p_call (fst (snd w))"
  let ?W = "map ?f (waiting s)"
  let ?Wk = "map ?f (filter (\<lambda>w. fst w = j) (waiting s))"
  let ?Wn = "map ?f (filter (\<lambda>w. fst w \<noteq> j) (waiting s))"
  let ?R = "map p_call (resumes (microtasks s))"
  from assms have d: "distinct (?L @ ?W @ ?R)" and b: "\<forall>c \<in> set (?L @ ?W @ ?R). c < next_call s"
    by (simp_all add: calls_distinct_def held_calls_def)
  from d have dw: "distinct ?W" by simp
  have part: "distinct (?Wk @ ?Wn)"
    using distinct_partition [OF dw, of "\<lambda>w. fst w = j"] by simp
  have sets: "set ?Wk \<union> set ?Wn = set ?W"
    using set_partition [of ?f "\<lambda>w. fst w = j" "waiting s"] by simp
  have d': "distinct (?L @ ?Wn @ ?R @ ?Wk)" and d'': "distinct (?L @ ?Wn @ ?R)"
    using d part sets by auto
  have b': "\<forall>c \<in> set (?L @ ?Wn @ ?R @ ?Wk). c < next_call s"
    using b sets by auto
  then have b'': "\<forall>c \<in> set (?L @ ?Wn @ ?R). c < next_call s" by auto
  show ?thesis
  proof (cases out)
    case Conn_resolved
    have "held_calls (settle_conn j out s) = ?L @ ?Wn @ ?R @ ?Wk"
      using False Conn_resolved
      by (simp add: held_calls_def settle_conn_def resumes_resolved o_def)
    with d' b' show ?thesis by (simp add: calls_distinct_def settle_conn_def False)
  next
    case (Conn_rejected e)
    have "held_calls (settle_conn j out s) = ?L @ ?Wn @ ?R"
      using False Conn_rejected
      by (simp add: held_calls_def settle_conn_def resumes_rejected)
    with d'' b'' show ?thesis by (simp add: calls_distinct_def settle_conn_def False)
  qed
qed


lemma calls_distinct_same:
  assumes "listeners s' = listeners s" and "waiting s' = waiting s"
    and "microtasks s' = microtasks s" and "next_call s' = next_call s"
  shows "calls_distinct s' = calls_distinct s"
  using assms by (simp add: calls_distinct_def held_calls_def)

lemma calls_distinct_updateStatus [simp]:
  "calls_distinct (updateStatus st e s) = calls_distinct s"
  by (rule calls_distinct_same) (simp_all add: updateStatus_def)

lemma calls_distinct_closeSocket [simp]:
  "calls_distinct (closeSocket x s) = calls_distinct s"
  by (rule calls_distinct_same) (cases x; simp)+

lemma calls_distinct_emit [simp]: "calls_distinct (emit x s) = calls_distinct s"
  by (rule calls_distinct_same) (simp_all add: emit_def)

lemma calls_distinct_fields [simp]:
  "calls_distinct (s\<lparr>socket := a\<rparr>) = calls_distinct s"
  "calls_distinct (s\<lparr>connectionPromise := b\<rparr>) = calls_distinct s"
  "calls_distinct (s\<lparr>log := c\<rparr>) = calls_distinct s"
  "calls_distinct (s\<lparr>destroyed := d\<rparr>) = calls_distinct s"
  "calls_distinct (s\<lparr>timers := e\<rparr>) = calls_distinct s"
  "calls_distinct (s\<lparr>settled := f\<rparr>) = calls_distinct s"
  "calls_distinct (s\<lparr>lastId := g\<rparr>) = calls_distinct s"
  "calls_distinct (s\<lparr>statusCallbacks := h\<rparr>) = calls_distinct s"
  "calls_distinct (s\<lparr>opened := i\<rparr>) = calls_distinct s"
  "calls_distinct (s\<lparr>noOpIntervalId := j\<rparr>) = calls_distinct s"
  "calls_distinct (s\<lparr>interval_running := k\<rparr>) = calls_distinct s"
  by (simp_all add: calls_distinct_def held_calls_def)

lemma calls_distinct_handleReject:
  "calls_distinct s \<Longrightarrow> calls_distinct (handleReject j e s)"
  unfolding handleReject_def
  by (rule calls_distinct_settle_conn) simp

lemma calls_distinct_handleResolve:
  "calls_distinct s \<Longrightarrow> calls_distinct (handleResolve j s)"
  unfolding handleResolve_def
  by (rule calls_distinct_settle_conn) simp

lemma calls_distinct_logon_then:
  "calls_distinct s \<Longrightarrow> calls_distinct (logon_then cfg j r s)"
  by (simp add: logon_then_def calls_distinct_handleReject calls_distinct_handleResolve
      split: sum.splits option.splits revision.splits)

lemma calls_distinct_filter:
  assumes "calls_distinct s"
  shows "calls_distinct (s\<lparr>timers := ts, listeners := filter P (listeners s)\<rparr>)"
  using assms
  by (auto simp add: calls_distinct_def held_calls_def distinct_map_filter)

lemma calls_distinct_listener:
  assumes "calls_distinct s"
  shows "calls_distinct (snd (listener cfg p data s))"
proof -
  have "calls_distinct (s\<lparr>timers := filter (\<lambda>q. p_call q \<noteq> p_call p) (timers s),
      listeners := filter (\<lambda>q. p_call q \<noteq> p_call p) (listeners s)\<rparr>)"
    using assms by (rule calls_distinct_filter)
  with assms show ?thesis
    by (simp add: listener_def Let_def split: sum.splits option.splits revision.splits)
qed

lemma calls_distinct_run_listeners:
  "calls_distinct s \<Longrightarrow> calls_distinct (snd (run_listeners cfg ps data s))"
proof (induction ps arbitrary: s)
  case Nil
  then show ?case by simp
next
  case (Cons p ps)
  obtain x s' where l: "listener cfg p data s = (x, s')" by (cases "listener cfg p data s")
  with calls_distinct_listener [OF Cons.prems, of cfg p data] have "calls_distinct s'" by simp
  with l Cons.IH [of s'] show ?case by (cases x) simp_all
qed

lemma calls_distinct_dispatch [simp]:
  "calls_distinct (snd (dispatch obj s)) = calls_distinct s"
  using dispatch_frame [of obj s]
  by (intro calls_distinct_same) (simp_all add: connection_part_def)


lemma calls_distinct_emit_package:
  "calls_distinct s \<Longrightarrow> calls_distinct (snd (emit_package cfg obj s))"
  by (simp add: emit_package_def calls_distinct_run_listeners)

lemma calls_distinct_process_frame:
  assumes "calls_distinct s"
  shows "calls_distinct (snd (process_frame parse cfg rx s))"
proof (cases "parse rx")
  case None
  with assms show ?thesis by (simp add: process_frame_def)
next
  case (Some obj)
  show ?thesis
  proof (cases "has_method obj")
    case (Inl x)
    with Some assms show ?thesis by (simp add: process_frame_def)
  next
    case (Inr hm)
    obtain y s1 where ds: "dispatch obj s = (y, s1)" by (cases "dispatch obj s")
    with assms calls_distinct_dispatch [of obj s] have s1: "calls_distinct s1" by simp
    then have "calls_distinct (snd (emit_package cfg obj s1))"
      by (rule calls_distinct_emit_package)
    moreover have "calls_distinct (snd (emit_package cfg obj s))"
      using assms by (rule calls_distinct_emit_package)
    ultimately show ?thesis
      using Some Inr ds s1 by (cases hm; cases y) (simp_all add: process_frame_def)
  qed
qed

lemma calls_distinct_receive_loop:
  "calls_distinct s \<Longrightarrow> calls_distinct (receive_loop parse cfg data rx s)"
proof (induction data arbitrary: rx s)
  case Nil
  then show ?case by simp
next
  case (Cons b bs)
  obtain x s' where p: "process_frame parse cfg rx s = (x, s')"
    by (cases "process_frame parse cfg rx s")
  with calls_distinct_process_frame [OF Cons.prems, of parse cfg rx]
  have n: "calls_distinct s'" by simp
  show ?case
  proof (cases "b = NUL")
    case True
    with p n Cons.IH show ?thesis by (cases x) simp_all
  next
    case False
    with Cons show ?thesis by simp
  qed
qed

lemma calls_distinct_on_timer: "calls_distinct s \<Longrightarrow> calls_distinct (on_timer cfg c s)"
  by (simp add: on_timer_def split: list.splits)

lemma calls_distinct_transmit_fresh:
  assumes "calls_distinct s" and "p_call p = next_call s"
  shows "calls_distinct (transmit p m k (s\<lparr>next_call := Suc (next_call s)\<rparr>))"
  using assms
  by (auto simp add: calls_distinct_def held_calls_def transmit_def less_Suc_eq)

lemma calls_distinct_await_fresh:
  assumes "calls_distinct s" and "p_call p = next_call s"
  shows "calls_distinct
    (case getSocket (s\<lparr>next_call := Suc (next_call s)\<rparr>) of (a, s3) \<Rightarrow> await_socket a p m s3)"
proof -
  let ?s2 = "s\<lparr>next_call := Suc (next_call s)\<rparr>"
  obtain a s3 where g: "getSocket ?s2 = (a, s3)" by (cases "getSocket ?s2")
  then have same: "listeners s3 = listeners s" "waiting s3 = waiting s"
    "microtasks s3 = microtasks s" "next_call s3 = Suc (next_call s)"
    by (auto simp add: getSocket_def initSocket_def Let_def split: option.splits)
  have "calls_distinct (await_socket a p m s3)"
    using assms same
    by (auto simp add: calls_distinct_def held_calls_def await_socket_def less_Suc_eq
        split: awaited.splits option.splits conn_outcome.splits)
  with g show ?thesis by simp
qed

lemma calls_distinct_send:
  assumes "calls_distinct s"
  shows "calls_distinct (send m f lg s)"
proof -
  have a: "calls_distinct (s\<lparr>lastId := x\<rparr>)" for x using assms by simp
  show ?thesis
  proof (cases f)
    case (Some j)
    show ?thesis
    proof (cases "m_id m")
      case None
      with Some calls_distinct_transmit_fresh [OF a, of _ "Suc (lastId s)"]
      show ?thesis by (simp add: send_def Let_def)
    next
      case (Some i)
      with \<open>f = Some j\<close> calls_distinct_transmit_fresh [OF assms]
      show ?thesis by (simp add: send_def Let_def)
    qed
  next
    case None
    show ?thesis
    proof (cases "m_id m")
      case None
      with \<open>f = None\<close> calls_distinct_await_fresh [OF a, of _ "Suc (lastId s)"]
      show ?thesis by (simp add: send_def Let_def)
    next
      case (Some i)
      with \<open>f = None\<close> calls_distinct_await_fresh [OF assms]
      show ?thesis by (simp add: send_def Let_def)
    qed
  qed
qed


lemma calls_distinct_on_event:
  assumes "calls_distinct s"
  shows "calls_distinct (on_event parse cfg ev s)"
proof (cases ev)
  case (Ev_ready j)
  with assms show ?thesis by (simp add: calls_distinct_send)
next
  case (Ev_connect j)
  with assms show ?thesis by (simp add: Let_def calls_distinct_handleResolve)
next
  case (Ev_close j)
  with assms show ?thesis by (simp add: on_teardown_def Let_def)
next
  case (Ev_end j)
  with assms show ?thesis by (simp add: on_teardown_def Let_def)
next
  case (Ev_timeout j)
  with assms show ?thesis by (simp add: on_teardown_def Let_def)
next
  case (Ev_connectionAttemptFailed j)
  with assms show ?thesis by (simp add: calls_distinct_handleReject)
next
  case (Ev_connectionAttemptTimeout j)
  with assms show ?thesis by (simp add: calls_distinct_handleReject)
next
  case (Ev_error j errno line)
  with assms show ?thesis by (simp add: Let_def)
next
  case (Ev_data j data)
  with assms show ?thesis by (simp add: receive_def calls_distinct_receive_loop)
next
  case Ev_node_close
  with assms show ?thesis by (simp add: Let_def)
next
  case (Ev_timer c)
  with assms show ?thesis by (simp add: calls_distinct_on_timer)
next
  case (Ev_send m)
  with assms show ?thesis by (simp add: calls_distinct_send)
next
  case (Ev_register n)
  with assms show ?thesis by (simp add: registerStatusCallback_def)
next
  case (Ev_unregister n)
  with assms show ?thesis by (simp add: unregisterStatusCallback_def)
qed

lemma calls_distinct_run_task:
  assumes "calls_distinct s" and "microtasks s = t # ts"
  shows "calls_distinct (run_task cfg t (s\<lparr>microtasks := ts\<rparr>))"
proof (cases t)
  case (Logon_then j r)
  with assms have "calls_distinct (s\<lparr>microtasks := ts\<rparr>)"
    by (simp add: calls_distinct_def held_calls_def)
  with Logon_then show ?thesis by (simp add: calls_distinct_logon_then)
next
  case (Logon_catch j e)
  with assms have "calls_distinct (s\<lparr>microtasks := ts\<rparr>)"
    by (simp add: calls_distinct_def held_calls_def)
  with Logon_catch show ?thesis by (simp add: calls_distinct_handleReject)
next
  case (Send_resume p m j)
  with assms show ?thesis
    by (auto simp add: calls_distinct_def held_calls_def transmit_def)
next
  case (Send_reject p e)
  with assms have "calls_distinct (s\<lparr>microtasks := ts\<rparr>)"
    by (simp add: calls_distinct_def held_calls_def)
  with Send_reject show ?thesis by simp
qed

lemma calls_distinct_step:
  "calls_distinct s \<Longrightarrow> calls_distinct (step parse cfg ev s)"
  unfolding step_def
  by (rule drain_invariant [where I = calls_distinct])
    (simp_all add: calls_distinct_on_event calls_distinct_run_task)

lemma calls_distinct_run:
  "calls_distinct s \<Longrightarrow> calls_distinct (run parse cfg evs s)"
  by (induction evs arbitrary: s) (simp_all add: calls_distinct_step)

lemma reachable_calls_distinct:
  "distinct (map p_call (listeners (run parse cfg evs init_state)))"
proof -
  have "calls_distinct init_state"
    by (simp add: calls_distinct_def held_calls_def init_state_def)
  then have "calls_distinct (run parse cfg evs init_state)" by (rule calls_distinct_run)
  then show ?thesis by (simp add: calls_distinct_def held_calls_def)
qed

subsection \<open>A call that nothing holds is never settled\<close>

text \<open>
  A promise of \<open>send\<close> is settled by the listener of the call, by its timer, or by the
  rejection of the connection attempt that the call awaits.  Once none of them is left,
  no event settles it.
\<close>

lemma queued_append [simp]: "queued (ts @ us) = queued ts @ queued us"
  by (induction ts rule: queued.induct) simp_all

lemma queued_waiting:
  "queued (map (\<lambda>w. case out of
       Conn_resolved \<Rightarrow> Send_resume (fst (snd w)) (snd (snd w)) k
     | Conn_rejected e \<Rightarrow> Send_reject (fst (snd w)) e) ws) = map (\<lambda>w. fst (snd w)) ws"
  by (cases out; induction ws) simp_all

lemma abandoned_same:
  assumes "listeners s' = listeners s" and "timers s' = timers s" and "waiting s' = waiting s"
    and "microtasks s' = microtasks s" and "next_call s' = next_call s"
    and "settled s' = settled s"
  shows "abandoned c s' = abandoned c s"
  using assms by (simp add: abandoned_def)

lemma abandoned_settle:
  "abandoned c s \<Longrightarrow> p_call p \<noteq> c \<Longrightarrow> abandoned c (settle p out s)"
  by (cases out; cases "p_logon p") (auto simp add: abandoned_def settle_def)

lemma abandoned_settle_conn:
  assumes "abandoned c s"
  shows "abandoned c (settle_conn j out s)"
  using assms by (auto simp add: abandoned_def settle_conn_def queued_waiting)

lemma abandoned_updateStatus [simp]: "abandoned c (updateStatus st e s) = abandoned c s"
  by (rule abandoned_same) (simp_all add: updateStatus_def)

lemma abandoned_closeSocket [simp]: "abandoned c (closeSocket x s) = abandoned c s"
  by (rule abandoned_same) (cases x; simp)+

lemma abandoned_emit [simp]: "abandoned c (emit x s) = abandoned c s"
  by (rule abandoned_same) (simp_all add: emit_def)

lemma abandoned_fields [simp]:
  "abandoned c (s\<lparr>socket := a\<rparr>) = abandoned c s"
  "abandoned c (s\<lparr>connectionPromise := b\<rparr>) = abandoned c s"
  "abandoned c (s\<lparr>log := l\<rparr>) = abandoned c s"
  "abandoned c (s\<lparr>destroyed := d\<rparr>) = abandoned c s"
  "abandoned c (s\<lparr>lastId := g\<rparr>) = abandoned c s"
  "abandoned c (s\<lparr>statusCallbacks := h\<rparr>) = abandoned c s"
  "abandoned c (s\<lparr>opened := i\<rparr>) = abandoned c s"
  "abandoned c (s\<lparr>noOpIntervalId := j\<rparr>) = abandoned c s"
  "abandoned c (s\<lparr>interval_running := k\<rparr>) = abandoned c s"
  by (simp_all add: abandoned_def)

lemma abandoned_handleReject: "abandoned c s \<Longrightarrow> abandoned c (handleReject j e s)"
  unfolding handleReject_def by (rule abandoned_settle_conn) simp

lemma abandoned_handleResolve: "abandoned c s \<Longrightarrow> abandoned c (handleResolve j s)"
  unfolding handleResolve_def by (rule abandoned_settle_conn) simp

lemma abandoned_logon_then: "abandoned c s \<Longrightarrow> abandoned c (logon_then cfg j r s)"
  by (simp add: logon_then_def abandoned_handleReject abandoned_handleResolve
      split: sum.splits option.splits revision.splits)

lemma abandoned_filter:
  assumes "abandoned c s"
  shows "abandoned c (s\<lparr>timers := filter P (timers s), listeners := filter Q (listeners s)\<rparr>)"
  using assms by (auto simp add: abandoned_def)

lemma abandoned_listener:
  assumes "abandoned c s" and "p_call p \<noteq> c"
  shows "abandoned c (snd (listener cfg p data s))"
proof -
  let ?s1 = "s\<lparr>timers := filter (\<lambda>q. p_call q \<noteq> p_call p) (timers s),
      listeners := filter (\<lambda>q. p_call q \<noteq> p_call p) (listeners s)\<rparr>"
  have a: "abandoned c ?s1" using assms(1) by (rule abandoned_filter)
  then have b: "abandoned c (settle p out ?s1)" for out
    using assms(2) by (rule abandoned_settle)
  then have "abandoned c (settle p out' (settle p out ?s1))" for out out'
    using assms(2) by (rule abandoned_settle)
  with assms(1) a b show ?thesis
    by (simp add: listener_def Let_def split: sum.splits option.splits revision.splits)
qed

lemma abandoned_run_listeners:
  assumes "abandoned c s" and "c \<notin> p_call ` set ps"
  shows "abandoned c (snd (run_listeners cfg ps data s))"
  using assms
proof (induction ps arbitrary: s)
  case Nil
  then show ?case by simp
next
  case (Cons p ps)
  obtain x s' where l: "listener cfg p data s = (x, s')" by (cases "listener cfg p data s")
  from Cons.prems have "p_call p \<noteq> c" by auto
  with abandoned_listener [OF Cons.prems(1), of p cfg data] l have "abandoned c s'" by simp
  with l Cons.IH [of s'] Cons.prems(2) show ?case by (cases x) simp_all
qed

lemma abandoned_dispatch [simp]: "abandoned c (snd (dispatch obj s)) = abandoned c s"
  using dispatch_frame [of obj s]
  by (intro abandoned_same) (simp_all add: connection_part_def)

lemma abandoned_emit_package:
  "abandoned c s \<Longrightarrow> abandoned c (snd (emit_package cfg obj s))"
  unfolding emit_package_def
  by (rule abandoned_run_listeners) (simp_all add: abandoned_def emit_def)

lemma abandoned_process_frame:
  assumes "abandoned c s"
  shows "abandoned c (snd (process_frame parse cfg rx s))"
proof (cases "parse rx")
  case None
  with assms show ?thesis by (simp add: process_frame_def)
next
  case (Some obj)
  show ?thesis
  proof (cases "has_method obj")
    case (Inl x)
    with Some assms show ?thesis by (simp add: process_frame_def)
  next
    case (Inr hm)
    obtain y s1 where ds: "dispatch obj s = (y, s1)" by (cases "dispatch obj s")
    with assms abandoned_dispatch [of c obj s] have s1: "abandoned c s1" by simp
    then have "abandoned c (snd (emit_package cfg obj s1))"
      by (rule abandoned_emit_package)
    moreover have "abandoned c (snd (emit_package cfg obj s))"
      using assms by (rule abandoned_emit_package)
    ultimately show ?thesis
      using Some Inr ds s1 by (cases hm; cases y) (simp_all add: process_frame_def)
  qed
qed

lemma abandoned_receive_loop:
  "abandoned c s \<Longrightarrow> abandoned c (receive_loop parse cfg data rx s)"
proof (induction data arbitrary: rx s)
  case Nil
  then show ?case by simp
next
  case (Cons b bs)
  obtain x s' where p: "process_frame parse cfg rx s = (x, s')"
    by (cases "process_frame parse cfg rx s")
  with abandoned_process_frame [OF Cons.prems, of parse cfg rx]
  have n: "abandoned c s'" by simp
  show ?case
  proof (cases "b = NUL")
    case True
    with p n Cons.IH show ?thesis by (cases x) simp_all
  next
    case False
    with Cons show ?thesis by simp
  qed
qed

lemma abandoned_on_timer: "abandoned c s \<Longrightarrow> abandoned c (on_timer cfg d s)"
proof (cases "filter (\<lambda>p. p_call p = d) (timers s)")
  case Nil
  assume "abandoned c s"
  with Nil show ?thesis by (simp add: on_timer_def)
next
  case (Cons p ps)
  assume a: "abandoned c s"
  from Cons have "p \<in> set (filter (\<lambda>p. p_call p = d) (timers s))" by simp
  then have p: "p \<in> set (timers s)" "p_call p = d" by simp_all
  with a have ne: "p_call p \<noteq> c" by (auto simp add: abandoned_def)
  have "abandoned c (s\<lparr>timers := filter (\<lambda>q. p_call q \<noteq> d) (timers s)\<rparr>)"
    using a by (auto simp add: abandoned_def)
  then have "abandoned c (settle p (Rejected (Error (timeout_message cfg)))
      (s\<lparr>timers := filter (\<lambda>q. p_call q \<noteq> d) (timers s)\<rparr>))"
    using ne by (rule abandoned_settle)
  with Cons show ?thesis by (simp add: on_timer_def)
qed

lemma abandoned_send:
  assumes "abandoned c s"
  shows "abandoned c (send m f lg s)"
proof -
  have g: "abandoned c (await_socket a p m' s3)"
    if "getSocket s2 = (a, s3)" and "abandoned c s2" and "p_call p \<noteq> c" for a s3 s2 p m'
  proof -
    from that(1) have same: "listeners s3 = listeners s2" "waiting s3 = waiting s2"
      "microtasks s3 = microtasks s2" "next_call s3 = next_call s2" "timers s3 = timers s2"
      "settled s3 = settled s2"
      by (auto simp add: getSocket_def initSocket_def Let_def split: option.splits)
    with that(2,3) show ?thesis
      by (auto simp add: abandoned_def await_socket_def
          split: awaited.splits option.splits conn_outcome.splits)
  qed
  have lt: "next_call s \<noteq> c" using assms by (auto simp add: abandoned_def)
  show ?thesis
  proof (cases f)
    case (Some j)
    with assms show ?thesis
      by (cases "m_id m") (auto simp add: send_def Let_def abandoned_def transmit_def)
  next
    case None
    show ?thesis
    proof (cases "m_id m")
      case None
      let ?s2 = "s\<lparr>lastId := Suc (lastId s), next_call := Suc (next_call s)\<rparr>"
      obtain a s3 where gs: "getSocket ?s2 = (a, s3)" by (cases "getSocket ?s2")
      have "abandoned c ?s2" using assms by (auto simp add: abandoned_def)
      from g [OF gs this] lt gs None \<open>f = None\<close> show ?thesis
        by (simp add: send_def Let_def)
    next
      case (Some i)
      let ?s2 = "s\<lparr>next_call := Suc (next_call s)\<rparr>"
      obtain a s3 where gs: "getSocket ?s2 = (a, s3)" by (cases "getSocket ?s2")
      have "abandoned c ?s2" using assms by (auto simp add: abandoned_def)
      from g [OF gs this] lt gs Some \<open>f = None\<close> show ?thesis
        by (simp add: send_def Let_def)
    qed
  qed
qed

lemma abandoned_on_event:
  assumes "abandoned c s"
  shows "abandoned c (on_event parse cfg ev s)"
proof (cases ev)
  case (Ev_ready j)
  with assms show ?thesis by (simp add: abandoned_send)
next
  case (Ev_connect j)
  with assms show ?thesis by (simp add: Let_def abandoned_handleResolve)
next
  case (Ev_close j)
  with assms show ?thesis by (simp add: on_teardown_def Let_def)
next
  case (Ev_end j)
  with assms show ?thesis by (simp add: on_teardown_def Let_def)
next
  case (Ev_timeout j)
  with assms show ?thesis by (simp add: on_teardown_def Let_def)
next
  case (Ev_connectionAttemptFailed j)
  with assms show ?thesis by (simp add: abandoned_handleReject)
next
  case (Ev_connectionAttemptTimeout j)
  with assms show ?thesis by (simp add: abandoned_handleReject)
next
  case (Ev_error j errno line)
  with assms show ?thesis by (simp add: Let_def)
next
  case (Ev_data j data)
  with assms show ?thesis by (simp add: receive_def abandoned_receive_loop)
next
  case Ev_node_close
  with assms show ?thesis by (simp add: Let_def)
next
  case (Ev_timer d)
  with assms show ?thesis by (simp add: abandoned_on_timer)
next
  case (Ev_send m)
  with assms show ?thesis by (simp add: abandoned_send)
next
  case (Ev_register n)
  with assms show ?thesis by (simp add: registerStatusCallback_def)
next
  case (Ev_unregister n)
  with assms show ?thesis by (simp add: unregisterStatusCallback_def)
qed

lemma abandoned_run_task:
  assumes "abandoned c s" and "microtasks s = t # ts"
  shows "abandoned c (run_task cfg t (s\<lparr>microtasks := ts\<rparr>))"
proof -
  have n: "abandoned c (s\<lparr>microtasks := ts\<rparr>)"
    using assms by (cases t) (auto simp add: abandoned_def)
  show ?thesis
  proof (cases t)
    case (Logon_then j r)
    with n show ?thesis by (simp add: abandoned_logon_then)
  next
    case (Logon_catch j e)
    with n show ?thesis by (simp add: abandoned_handleReject)
  next
    case (Send_resume p m j)
    with assms have "p_call p \<noteq> c" by (auto simp add: abandoned_def)
    with n Send_resume show ?thesis by (auto simp add: abandoned_def transmit_def)
  next
    case (Send_reject p e)
    with assms have "p_call p \<noteq> c" by (auto simp add: abandoned_def)
    with n Send_reject show ?thesis by (simp add: abandoned_settle)
  qed
qed

lemma abandoned_step: "abandoned c s \<Longrightarrow> abandoned c (step parse cfg ev s)"
  unfolding step_def
  by (rule drain_invariant [where I = "abandoned c"])
    (simp_all add: abandoned_on_event abandoned_run_task)

lemma abandoned_run: "abandoned c s \<Longrightarrow> abandoned c (run parse cfg evs s)"
  by (induction evs arbitrary: s) (simp_all add: abandoned_step)

lemma abandoned_never_settled:
  "abandoned c s \<Longrightarrow> c \<notin> fst ` set (settled (run parse cfg evs s))"
  using abandoned_run [of c s parse cfg evs] by (simp add: abandoned_def)

subsection \<open>Claim C9\<close>

text \<open>
  The listener of a call tests \<open>data.id === input.id\<close> and nothing else.  For the
  emission of a decoded object (an object or an array) to the listeners of distinct
  calls, as they are in every state reached from the initial one, in the TypeScript
  source for every object and in the built client for every object whose \<open>error\<close> is not
  \<open>null\<close>: the emission raises nothing; a request that was pending is settled by it
  exactly when the ids are equal, and then with the outcome of this response; the
  listeners that remain are those whose id differs, whatever their place in the list; when
  the ids of the listeners are pairwise distinct, at most one listener matches and at most
  one promise is settled; and when no id matches, the state changes by the record of the
  emission alone.
\<close>

lemma responses_matched_by_id:
  assumes "distinct (map p_call (listeners s))"
    and "has_method obj = Inr hm"
    and "revision cfg = Source_ts \<or> get_prop (Some obj) ''error'' \<noteq> Inr (Some JNull)"
  shows "fst (emit_package cfg obj s) = None \<and>
    (\<forall>p \<in> set (listeners s). p_call p \<notin> fst ` set (settled s) \<longrightarrow>
       (p_call p \<in> fst ` set (settled (snd (emit_package cfg obj s))) \<longleftrightarrow> id_matches obj p) \<and>
       (id_matches obj p \<longrightarrow>
          map_of (settled (snd (emit_package cfg obj s))) (p_call p) =
            Some (response_outcome cfg obj))) \<and>
    listeners (snd (emit_package cfg obj s)) =
      filter (\<lambda>p. \<not> id_matches obj p) (listeners s) \<and>
    (distinct (map p_id (listeners s)) \<longrightarrow>
       length (filter (id_matches obj) (listeners s)) \<le> 1 \<and>
       length (settled (snd (emit_package cfg obj s))) \<le> Suc (length (settled s))) \<and>
    ((\<forall>p \<in> set (listeners s). \<not> id_matches obj p) \<longrightarrow>
       snd (emit_package cfg obj s) = emit (Emit_package obj) s)"
proof -
  let ?s0 = "emit (Emit_package obj) s"
  let ?s' = "snd (emit_package cfg obj s)"
  let ?M = "p_call ` {p \<in> set (listeners s). id_matches obj p}"
  obtain i where i: "get_prop (Some obj) ''id'' = Inr i"
    using get_prop_object [OF assms(2)] by blast
  have s0: "listeners ?s0 = listeners s" "timers ?s0 = timers s" "settled ?s0 = settled s"
    by (simp_all add: emit_def)
  have s': "?s' = snd (run_listeners cfg (listeners s) obj ?s0)"
    by (simp add: emit_package_def)
  note eff = run_listeners_effect [OF i assms(3), where ps = "listeners s" and s = ?s0]
  have inM: "p_call p \<in> ?M \<longleftrightarrow> id_matches obj p" if "p \<in> set (listeners s)" for p
    using that assms(1) by (auto simp add: distinct_map inj_on_def)
  have c1: "fst (emit_package cfg obj s) = None"
    using eff by (simp add: emit_package_def)
  have c2: "p_call p \<in> fst ` set (settled ?s') \<longleftrightarrow> id_matches obj p"
    if "p \<in> set (listeners s)" and "p_call p \<notin> fst ` set (settled s)" for p
  proof -
    have "fst ` set (settled ?s') = fst ` set (settled s) \<union> ?M"
      using eff s' s0 by simp
    with that inM [OF that(1)] show ?thesis by simp
  qed
  have c2a: "map_of (settled ?s') (p_call p) = Some (response_outcome cfg obj)"
    if "p \<in> set (listeners s)" and "p_call p \<notin> fst ` set (settled s)" and "id_matches obj p" for p
  proof -
    have "map_of (settled s) (p_call p) = None"
      using that(2) by (simp add: map_of_eq_None_iff)
    moreover have "p_call p \<in> ?M" using that(1,3) by blast
    ultimately show ?thesis
      using run_listeners_outcome [OF i assms(3), where ps = "listeners s" and s = ?s0 and c = "p_call p"] s' s0
      by simp
  qed
  have c3: "listeners ?s' = filter (\<lambda>p. \<not> id_matches obj p) (listeners s)"
  proof -
    have "listeners ?s' = filter (\<lambda>q. p_call q \<notin> ?M) (listeners s)"
      using eff s' s0 by simp
    also have "\<dots> = filter (\<lambda>p. \<not> id_matches obj p) (listeners s)"
      by (rule filter_cong) (simp_all add: inM)
    finally show ?thesis .
  qed
  have c4: "length (filter (id_matches obj) (listeners s)) \<le> 1 \<and>
           length (settled ?s') \<le> Suc (length (settled s))"
    if "distinct (map p_id (listeners s))"
  proof -
    have a: "length (filter (id_matches obj) (listeners s)) \<le> 1"
      using that by (rule distinct_ids_one_match)
    have "length (settled ?s') \<le> length (settled s) + length (filter (id_matches obj) (listeners s))"
      using eff s' s0 by simp
    with a show ?thesis by simp
  qed
  have c5: "?s' = ?s0" if "\<forall>p \<in> set (listeners s). \<not> id_matches obj p"
    using run_listeners_none_match [OF i that, of cfg ?s0] by (simp add: emit_package_def)
  from c1 c2 c2a c3 c4 c5 show ?thesis by blast
qed

text \<open>
  Two requests are pending in the built client, with the ids 5 and 0; the response with
  the id 0 settles the second and leaves the first.
\<close>

lemma responses_matched_by_id_example:
  \<open>distinct (map p_call (listeners (run json_parse cfg0 [Ev_send msg5, Ev_send msg_a, Ev_connect 0] init_state))) \<and>
   distinct (map p_id (listeners (run json_parse cfg0 [Ev_send msg5, Ev_send msg_a, Ev_connect 0] init_state))) \<and>
   listeners (run json_parse cfg0 [Ev_send msg5, Ev_send msg_a, Ev_connect 0] init_state) =
     [\<lparr>p_call = 0, p_id = 5, p_logon = None\<rparr>, \<lparr>p_call = 1, p_id = 0, p_logon = None\<rparr>] \<and>
   settled (run json_parse cfg0 [Ev_send msg5, Ev_send msg_a, Ev_connect 0] init_state) = [] \<and>
   has_method (JObj [(''id'', JNum 0)]) = Inr False \<and>
   fst (emit_package cfg0 (JObj [(''id'', JNum 0)])
     (run json_parse cfg0 [Ev_send msg5, Ev_send msg_a, Ev_connect 0] init_state)) = None \<and>
   listeners (snd (emit_package cfg0 (JObj [(''id'', JNum 0)])
     (run json_parse cfg0 [Ev_send msg5, Ev_send msg_a, Ev_connect 0] init_state))) =
     [\<lparr>p_call = 0, p_id = 5, p_logon = None\<rparr>] \<and>
   map_of (settled (snd (emit_package cfg0 (JObj [(''id'', JNum 0)])
     (run json_parse cfg0 [Ev_send msg5, Ev_send msg_a, Ev_connect 0] init_state)))) 1 =
     Some (Resolved (JObj [(''id'', JNum 0)])) \<and>
   0 \<notin> fst ` set (settled (snd (emit_package cfg0 (JObj [(''id'', JNum 0)])
     (run json_parse cfg0 [Ev_send msg5, Ev_send msg_a, Ev_connect 0] init_state))))\<close>
proof -
  let ?s = "run json_parse cfg0 [Ev_send msg5, Ev_send msg_a, Ev_connect 0] init_state"
  let ?obj = "JObj [(''id'', JNum 0)]"
  let ?p0 = "\<lparr>p_call = 0, p_id = 5, p_logon = None\<rparr>"
  let ?p1 = "\<lparr>p_call = 1, p_id = 0, p_logon = None\<rparr>"
  have l: "listeners ?s = [?p0, ?p1]" by code_simp
  have st: "settled ?s = []" by code_simp
  have d: "distinct (map p_call (listeners ?s))" "distinct (map p_id (listeners ?s))"
    by (simp_all add: l del: run.simps)
  have h: "has_method ?obj = Inr False" by simp
  have e: "revision cfg0 = Source_ts \<or> get_prop (Some ?obj) ''error'' \<noteq> Inr (Some JNull)"
    by simp
  have m: "\<not> id_matches ?obj ?p0" "id_matches ?obj ?p1" "response_outcome cfg0 ?obj = Resolved ?obj"
    by (simp_all add: id_matches_def response_outcome_def cfg0_def)
  from responses_matched_by_id [OF d(1) h e] l st d h m
  show ?thesis by (simp del: run.simps)
qed


text \<open>
  After that frame nothing holds the request, and no sequence of later events settles it,
  whatever the decoder answers on the later frames.
\<close>

lemma null_error_request_abandoned:
  \<open>abandoned 0 (run json_parse cfg0
      [Ev_send msg5, Ev_connect 0, Ev_data 0 (''{"id":5,"error":null}'' @ [NUL])] init_state)\<close>
  by code_simp

lemma null_error_request_never_settled:
  \<open>0 \<notin> fst ` set (settled (run parse cfg0 evs (run json_parse cfg0
      [Ev_send msg5, Ev_connect 0, Ev_data 0 (''{"id":5,"error":null}'' @ [NUL])] init_state)))\<close>
  using null_error_request_abandoned by (rule abandoned_never_settled)

subsection \<open>Claim C6\<close>

text \<open>The table of \<open>hint\<close>, entry by entry, but for the code 6, and the default.\<close>

lemma hint_table:
  "hint \<lparr>code = Some (JNum (- 32700)), message = t\<rparr> =
     ''Parse error. Invalid JSON was received by the server.''"
  "hint \<lparr>code = Some (JNum (- 32600)), message = t\<rparr> =
     ''Invalid request. The JSON sent is not a valid Request object.''"
  "hint \<lparr>code = Some (JNum (- 32601)), message = t\<rparr> = ''Method not found.''"
  "hint \<lparr>code = Some (JNum (- 32602)), message = t\<rparr> = ''Invalid params.''"
  "hint \<lparr>code = Some (JNum (- 32603)), message = t\<rparr> = ''Server error.''"
  "hint \<lparr>code = Some (JNum (- 32604)), message = t\<rparr> =
     ''Core is on Standby. This code is returned when a QRC command is received while the Core is not the active Core in a redundant Core configuration.''"
  "hint \<lparr>code = Some (JNum 2), message = t\<rparr> = ''Invalid Page Request ID''"
  "hint \<lparr>code = Some (JNum 3), message = t\<rparr> =
     ''Bad Page Request - could not create the requested Page Request''"
  "hint \<lparr>code = Some (JNum 4), message = t\<rparr> = ''Missing file''"
  "hint \<lparr>code = Some (JNum 5), message = t\<rparr> = ''Change Groups exhausted''"
  "hint \<lparr>code = Some (JNum 7), message = t\<rparr> = ''Unknown component name''"
  "hint \<lparr>code = Some (JNum 8), message = t\<rparr> = ''Unknown control''"
  "hint \<lparr>code = Some (JNum 9), message = t\<rparr> = ''Illegal mixer channel index''"
  "hint \<lparr>code = Some (JNum 10), message = t\<rparr> = ''Logon required''"
  by (simp_all add: hint_def)

lemma hint_default:
  assumes "c \<notin> (\<lambda>n. Some (JNum n)) `
     {- 32700, - 32600, - 32601, - 32602, - 32603, - 32604, 2, 3, 4, 5, 6, 7, 8, 9, 10}"
  shows "hint \<lparr>code = c, message = t\<rparr> = ''Unknown Error''"
  using assms by (simp add: hint_def)

text \<open>
  The example of the specification: the response with id 7 and the error of code 7
  rejects the pending request 7 with a \<open>QSysApiError\<close> whose hint is
  \<open>Unknown component name\<close>.
\<close>

lemma unknown_component_example:
  \<open>settled (run json_parse cfg0
      [Ev_send msg7, Ev_connect 0,
       Ev_data 0 (''{"id":7,"error":{"code":7,"message":"Unknown component"}}'' @ [NUL])]
      init_state) =
     [(0, Rejected (ApiError \<lparr>code = Some (JNum 7), message = Some (JStr ''Unknown component'')\<rparr>))] \<and>
   hint \<lparr>code = Some (JNum 7), message = Some (JStr ''Unknown component'')\<rparr> =
     ''Unknown component name''\<close>
  by code_simp

text \<open>
  C6 gives the hint of each code; for the code 6 it is \<open>unknown change group\<close>.  The
  \<open>switch\<close> of \<open>hint\<close> returns the text \<open>Unknown change croup\<close> for the code 6.  A
  response with the id of a pending request and an error of code 6 rejects the request
  with a \<open>QSysApiError\<close> of that code, whose hint is the misspelt text.
\<close>

theorem C6_hint_of_code_6:
  \<open>settled (run json_parse cfg0
      [Ev_send msg5, Ev_connect 0,
       Ev_data 0 (''{"id":5,"error":{"code":6,"message":"no such group"}}'' @ [NUL])]
      init_state) =
     [(0, Rejected (ApiError \<lparr>code = Some (JNum 6), message = Some (JStr ''no such group'')\<rparr>))] \<and>
   hint \<lparr>code = Some (JNum 6), message = Some (JStr ''no such group'')\<rparr> =
     ''Unknown change croup''\<close>
  by code_simp

section \<open>Engine status and the stored socket\<close>

lemma engine_status_frame:
  assumes "parse rx = Some obj"
    and "get_prop (Some obj) ''method'' = Inr (Some (JStr ''EngineStatus''))"
  shows "process_frame parse cfg rx s =
         (case engine_status obj s of
            (Some x, s1) \<Rightarrow> (Some x, s1)
          | (None, s1) \<Rightarrow> emit_package cfg obj s1)"
proof (cases obj)
  case (JObj kvs)
  with assms show ?thesis
    by (auto simp add: process_frame_def dispatch_def)
qed (use assms(2) in \<open>simp_all split: if_splits\<close>)

lemma process_frame_standby:
  assumes "parse rx = Some obj"
    and "get_prop (Some obj) ''method'' = Inr (Some (JStr ''EngineStatus''))"
    and "get_prop (Some obj) ''params'' = Inr ps"
    and "get_prop ps ''State'' = Inr (Some (JStr ''Standby''))"
    and "socket s = Some k"
  shows "k \<in> destroyed (snd (process_frame parse cfg rx s))"
proof -
  have "engine_status obj s = (None, closeSocket (socket s) s)"
    using assms(3,4) by (simp add: engine_status_def)
  with engine_status_frame [where parse = parse and rx = rx, OF assms(1,2), of cfg s]
  have "snd (process_frame parse cfg rx s) =
      snd (emit_package cfg obj (closeSocket (socket s) s))" by simp
  with emit_package_frame [of cfg obj "closeSocket (socket s) s"] assms(5)
  show ?thesis by simp
qed

lemma process_frame_active:
  assumes "parse rx = Some obj"
    and "get_prop (Some obj) ''method'' = Inr (Some (JStr ''EngineStatus''))"
    and "get_prop (Some obj) ''params'' = Inr ps"
    and "get_prop ps ''State'' = Inr (Some (JStr ''Active''))"
  shows "Emit_ready \<in> set (log (snd (process_frame parse cfg rx s))) \<and>
      socket (snd (process_frame parse cfg rx s)) = socket s \<and>
      destroyed (snd (process_frame parse cfg rx s)) = destroyed s \<and>
      connection_part (snd (process_frame parse cfg rx s)) = connection_part s"
proof -
  have "engine_status obj s = (None, emit Emit_ready s)"
    using assms(3,4) by (simp add: engine_status_def)
  with engine_status_frame [where parse = parse and rx = rx, OF assms(1,2), of cfg s]
  have "snd (process_frame parse cfg rx s) =
      snd (emit_package cfg obj (emit Emit_ready s))" by simp
  with emit_package_frame [of cfg obj "emit Emit_ready s"]
  show ?thesis by (simp add: emit_def connection_part_def)
qed

lemma parse_standby:
  \<open>json_parse ''{"method":"EngineStatus","params":{"State":"Standby"}}'' =
     Some (JObj [(''method'', JStr ''EngineStatus''), (''params'', JObj [(''State'', JStr ''Standby'')])])\<close>
  by code_simp

lemma parse_active:
  \<open>json_parse ''{"method":"EngineStatus","params":{"State":"Active"}}'' =
     Some (JObj [(''method'', JStr ''EngineStatus''), (''params'', JObj [(''State'', JStr ''Active'')])])\<close>
  by code_simp

subsection \<open>Claim C8\<close>

text \<open>
  C8: for a decoded frame with the method \<open>EngineStatus\<close>, the state \<open>Standby\<close> destroys
  the socket stored in the client, and the state \<open>Active\<close> emits \<open>ready\<close> and leaves the
  connection as it is: the stored socket, the destroyed sockets and every other field of
  the connection are unchanged.  (The frame is processed by the \<open>try\<close> of \<open>receive\<close>;
  \<open>params.State\<close> is read from it.)
\<close>

theorem C8_engine_status:
  assumes "parse rx = Some obj"
    and "get_prop (Some obj) ''method'' = Inr (Some (JStr ''EngineStatus''))"
    and "get_prop (Some obj) ''params'' = Inr ps"
    and "get_prop ps ''State'' = Inr (Some (JStr st))"
  shows "(st = ''Standby'' \<longrightarrow>
            (\<forall>k. socket s = Some k \<longrightarrow> k \<in> destroyed (snd (process_frame parse cfg rx s)))) \<and>
         (st = ''Active'' \<longrightarrow>
            Emit_ready \<in> set (log (snd (process_frame parse cfg rx s))) \<and>
            socket (snd (process_frame parse cfg rx s)) = socket s \<and>
            destroyed (snd (process_frame parse cfg rx s)) = destroyed s \<and>
            connection_part (snd (process_frame parse cfg rx s)) = connection_part s)"
proof -
  have "k \<in> destroyed (snd (process_frame parse cfg rx s))"
    if "st = ''Standby''" and "socket s = Some k" for k
    using assms that
    by (simp add: process_frame_standby [where parse = parse and rx = rx and obj = obj and ps = ps])
  moreover have "Emit_ready \<in> set (log (snd (process_frame parse cfg rx s))) \<and>
      socket (snd (process_frame parse cfg rx s)) = socket s \<and>
      destroyed (snd (process_frame parse cfg rx s)) = destroyed s \<and>
      connection_part (snd (process_frame parse cfg rx s)) = connection_part s"
    if "st = ''Active''"
    using assms that
    by (simp add: process_frame_active [where parse = parse and rx = rx and obj = obj and ps = ps])
  ultimately show ?thesis by blast
qed

theorem C8_witness:
  \<open>socket (run json_parse cfg0 [Ev_send msg5, Ev_connect 0] init_state) = Some 0 \<and>
   destroyed (run json_parse cfg0 [Ev_send msg5, Ev_connect 0] init_state) = {} \<and>
   0 \<in> destroyed (snd (process_frame json_parse cfg0
      ''{"method":"EngineStatus","params":{"State":"Standby"}}''
      (run json_parse cfg0 [Ev_send msg5, Ev_connect 0] init_state))) \<and>
   Emit_ready \<in> set (log (snd (process_frame json_parse cfg0
      ''{"method":"EngineStatus","params":{"State":"Active"}}''
      (run json_parse cfg0 [Ev_send msg5, Ev_connect 0] init_state)))) \<and>
   destroyed (snd (process_frame json_parse cfg0
      ''{"method":"EngineStatus","params":{"State":"Active"}}''
      (run json_parse cfg0 [Ev_send msg5, Ev_connect 0] init_state))) = {}\<close>
proof -
  let ?s = "run json_parse cfg0 [Ev_send msg5, Ev_connect 0] init_state"
  have s: "socket ?s = Some 0" "destroyed ?s = {}" by code_simp+
  have a: \<open>get_prop (Some (JObj [(''method'', JStr ''EngineStatus''), (''params'', JObj [(''State'', JStr x)])]))
      ''method'' = Inr (Some (JStr ''EngineStatus''))\<close>
    \<open>get_prop (Some (JObj [(''method'', JStr ''EngineStatus''), (''params'', JObj [(''State'', JStr x)])]))
      ''params'' = Inr (Some (JObj [(''State'', JStr x)]))\<close>
    \<open>get_prop (Some (JObj [(''State'', JStr x)])) ''State'' = Inr (Some (JStr x))\<close> for x
    by simp_all
  note sb = C8_engine_status [where parse = json_parse and cfg = cfg0 and s = ?s
      and st = "''Standby''", OF parse_standby a(1) a(2) a(3)]
  note ac = C8_engine_status [where parse = json_parse and cfg = cfg0 and s = ?s
      and st = "''Active''", OF parse_active a(1) a(2) a(3)]
  from sb ac s show ?thesis by (simp del: run.simps)
qed

subsection \<open>Claim C10\<close>

lemma send_socket [simp]: "socket (send m f lg s) = socket s"
  by (simp add: send_def getSocket_def initSocket_def await_socket_def transmit_def Let_def
      split: option.splits conn_outcome.splits)

lemma on_timer_socket [simp]: "socket (on_timer cfg c s) = socket s"
  by (simp add: on_timer_def split: list.splits)

lemma receive_socket [simp]: "socket (receive parse cfg data s) = socket s"
  using receive_connection_part [of parse cfg data s] by (simp add: connection_part_def)

lemma on_event_socket_kept:
  assumes "socket s = Some k" and "ev \<notin> {Ev_close k, Ev_end k, Ev_timeout k}"
  shows "socket (on_event parse cfg ev s) \<noteq> None"
  using assms
  by (cases ev)
    (simp_all add: on_teardown_fields emit_def Let_def registerStatusCallback_def
      unregisterStatusCallback_def)

lemma step_socket_kept:
  assumes "socket s = Some k" and "ev \<notin> {Ev_close k, Ev_end k, Ev_timeout k}"
  shows "socket (step parse cfg ev s) \<noteq> None"
  unfolding step_def using on_event_socket_kept [OF assms] by (rule drain_socket)

lemma send_on_stored_socket:
  assumes "socket s = Some k"
  shows "\<exists>m'. m_method m' = m_method m \<and> log (on_event parse cfg (Ev_send m) s) = log s @ [Write k m']"
  using assms by (simp add: send_def transmit_def Let_def split: option.splits)

text \<open>
  C10: \<open>closeSocket\<close> never changes the stored socket; a turn of the event loop that
  clears the stored socket is the handler of \<open>close\<close>, \<open>end\<close> or \<open>timeout\<close> of that
  very socket; and right after a frame \<open>EngineStatus\<close> with the state \<open>Standby\<close> the
  stored socket is still the socket that was just destroyed, \<open>getSocket\<close> returns it, and
  a \<open>send\<close> writes its frame to it.
\<close>

theorem C10_closeSocket_keeps_stored_socket:
  "(\<forall>x. socket (closeSocket x s) = socket s) \<and>
   (socket s = Some k \<and> socket (step parse cfg ev s) = None \<longrightarrow>
      ev \<in> {Ev_close k, Ev_end k, Ev_timeout k}) \<and>
   (parse rx = Some obj \<and>
    get_prop (Some obj) ''method'' = Inr (Some (JStr ''EngineStatus'')) \<and>
    get_prop (Some obj) ''params'' = Inr ps \<and>
    get_prop ps ''State'' = Inr (Some (JStr ''Standby'')) \<and> socket s = Some k \<longrightarrow>
      socket (snd (process_frame parse cfg rx s)) = Some k \<and>
      k \<in> destroyed (snd (process_frame parse cfg rx s)) \<and>
      getSocket (snd (process_frame parse cfg rx s)) = (Now k, snd (process_frame parse cfg rx s)) \<and>
      (\<exists>m'. m_method m' = m_method m \<and>
         log (on_event parse cfg (Ev_send m) (snd (process_frame parse cfg rx s))) =
           log (snd (process_frame parse cfg rx s)) @ [Write k m']))"
proof -
  have a: "\<forall>x. socket (closeSocket x s) = socket s" by simp
  have b: "ev \<in> {Ev_close k, Ev_end k, Ev_timeout k}"
    if "socket s = Some k" and "socket (step parse cfg ev s) = None"
    using step_socket_kept [OF that(1), of ev parse cfg] that(2) by blast
  have c: "socket (snd (process_frame parse cfg rx s)) = Some k \<and>
      k \<in> destroyed (snd (process_frame parse cfg rx s)) \<and>
      getSocket (snd (process_frame parse cfg rx s)) = (Now k, snd (process_frame parse cfg rx s)) \<and>
      (\<exists>m'. m_method m' = m_method m \<and>
         log (on_event parse cfg (Ev_send m) (snd (process_frame parse cfg rx s))) =
           log (snd (process_frame parse cfg rx s)) @ [Write k m'])"
    if p: "parse rx = Some obj"
      "get_prop (Some obj) ''method'' = Inr (Some (JStr ''EngineStatus''))"
      "get_prop (Some obj) ''params'' = Inr ps"
      "get_prop ps ''State'' = Inr (Some (JStr ''Standby''))"
      and k: "socket s = Some k"
  proof -
    let ?s' = "snd (process_frame parse cfg rx s)"
    have "connection_part ?s' = connection_part s"
      by (rule process_frame_connection_part)
    with k have sk: "socket ?s' = Some k" by (simp add: connection_part_def)
    have d: "k \<in> destroyed ?s'"
      using p k by (rule process_frame_standby [where parse = parse and rx = rx])
    have g: "getSocket ?s' = (Now k, ?s')" using sk by (simp add: getSocket_def)
    from sk d g send_on_stored_socket [OF sk, of m parse cfg] show ?thesis by blast
  qed
  from a b c show ?thesis by blast
qed

theorem C10_witness:
  \<open>socket (run json_parse cfg0 [Ev_send msg5, Ev_connect 0] init_state) = Some 0 \<and>
   socket (step json_parse cfg0 (Ev_close 0)
      (run json_parse cfg0 [Ev_send msg5, Ev_connect 0] init_state)) = None \<and>
   socket (snd (process_frame json_parse cfg0
      ''{"method":"EngineStatus","params":{"State":"Standby"}}''
      (run json_parse cfg0 [Ev_send msg5, Ev_connect 0] init_state))) = Some 0 \<and>
   0 \<in> destroyed (snd (process_frame json_parse cfg0
      ''{"method":"EngineStatus","params":{"State":"Standby"}}''
      (run json_parse cfg0 [Ev_send msg5, Ev_connect 0] init_state))) \<and>
   (\<exists>m'. m_method m' = m_method msg_a \<and>
      log (on_event json_parse cfg0 (Ev_send msg_a)
        (snd (process_frame json_parse cfg0
          ''{"method":"EngineStatus","params":{"State":"Standby"}}''
          (run json_parse cfg0 [Ev_send msg5, Ev_connect 0] init_state)))) =
      log (snd (process_frame json_parse cfg0
          ''{"method":"EngineStatus","params":{"State":"Standby"}}''
          (run json_parse cfg0 [Ev_send msg5, Ev_connect 0] init_state))) @ [Write 0 m'])\<close>
proof -
  let ?s = "run json_parse cfg0 [Ev_send msg5, Ev_connect 0] init_state"
  have s: "socket ?s = Some 0" by code_simp
  have c: "socket (step json_parse cfg0 (Ev_close 0) ?s) = None" by code_simp
  have a: \<open>get_prop (Some (JObj [(''method'', JStr ''EngineStatus''),
        (''params'', JObj [(''State'', JStr ''Standby'')])])) ''method'' =
      Inr (Some (JStr ''EngineStatus''))\<close>
    \<open>get_prop (Some (JObj [(''method'', JStr ''EngineStatus''),
        (''params'', JObj [(''State'', JStr ''Standby'')])])) ''params'' =
      Inr (Some (JObj [(''State'', JStr ''Standby'')]))\<close>
    \<open>get_prop (Some (JObj [(''State'', JStr ''Standby'')])) ''State'' =
      Inr (Some (JStr ''Standby''))\<close>
    by simp_all
  note t = C10_closeSocket_keeps_stored_socket [where s = ?s and k = 0 and parse = json_parse
      and cfg = cfg0 and ev = "Ev_close 0" and m = msg_a
      and rx = \<open>''{"method":"EngineStatus","params":{"State":"Standby"}}''\<close>
      and obj = "JObj [(''method'', JStr ''EngineStatus''),
        (''params'', JObj [(''State'', JStr ''Standby'')])]"
      and ps = "Some (JObj [(''State'', JStr ''Standby'')])"]
  from t s c a parse_standby show ?thesis by blast
qed

section \<open>Authentication\<close>

subsection \<open>What keeps a socket from becoming the connection\<close>




lemma tracked_settle [simp]: "tracked (settle p out s) = tracked s"
  by (cases out; cases "p_logon p") (auto simp add: tracked_def settle_def)





lemma not_ready_log [simp]: "not_ready k (s\<lparr>log := l\<rparr>) = not_ready k s"
  by (simp add: not_ready_def tracked_def logon_settled_def)

lemma not_ready_emit [simp]: "not_ready k (emit x s) = not_ready k s"
  by (simp add: emit_def)

lemma not_ready_updateStatus [simp]: "not_ready k (updateStatus st e s) = not_ready k s"
  by (simp add: updateStatus_def)

lemma not_ready_closeSocket [simp]: "not_ready k (closeSocket x s) = not_ready k s"
  by (cases x) (simp_all add: not_ready_def tracked_def logon_settled_def)





















lemma not_ready_fresh:
  assumes "not_ready k s"
  shows "not_ready k (s\<lparr>lastId := a\<rparr>)" and "not_ready k (s\<lparr>next_call := b\<rparr>)"
  using assms by (simp_all add: not_ready_def tracked_def logon_settled_def)








lemma not_ready_destroyed [simp]: "not_ready k (s\<lparr>destroyed := d\<rparr>) = not_ready k s"
  by (simp add: not_ready_def tracked_def logon_settled_def)













subsection \<open>How a Logon request fails\<close>

text \<open>
  The reaction that the listener and the timer of a Logon request queue: a matching
  response queues the \<open>then\<close> reaction, or, when the built client rejects it for its
  error, the \<open>catch\<close> reaction; the timer queues the \<open>catch\<close> reaction with the timeout
  error.
\<close>

lemma logon_response_reaction:
  assumes "id_matches data p"
    and "revision cfg = Source_ts \<or> get_prop (Some data) ''error'' \<noteq> Inr (Some JNull)"
    and "p_logon p = Some k" and "p_call p \<notin> fst ` set (settled s)"
  shows "microtasks (snd (listener cfg p data s)) =
     microtasks s @
       [case response_outcome cfg data of
          Resolved d \<Rightarrow> Logon_then k d
        | Rejected e \<Rightarrow> Logon_catch k e]"
  using assms(3,4) by (simp add: listener_match [OF assms(1,2)] settle_def)

lemma logon_timeout_reaction:
  assumes "filter (\<lambda>q. p_call q = c) (timers s) = p # ps"
    and "p_logon p = Some k" and "p_call p \<notin> fst ` set (settled s)"
  shows "microtasks (on_timer cfg c s) =
     microtasks s @ [Logon_catch k (Error (timeout_message cfg))]"
  using assms by (simp add: on_timer_def settle_def)

lemma refused_logon_is_rejected:
  assumes "revision cfg = Dist_js"
    and "get_prop (Some data) ''error'' = Inr (Some (JObj kvs))"
  shows "response_outcome cfg data =
     Rejected (ApiError \<lparr>code = map_of kvs ''code'', message = map_of kvs ''message''\<rparr>)"
  using assms by (simp add: response_outcome_def)

subsection \<open>Claim C7\<close>



end
